theory Spec2Isabelle
  imports Main "HOL-Library.AList" "HOL-Library.Word"
begin

section \<open>Data model\<close>

text \<open>
  Timestamps are the localised datetimes the readers yield. All of them carry the same
  timezone object, so Python compares and subtracts them on the local wall clock with whole
  seconds (\<open>strptime\<close> with \<open>%S\<close>): a timestamp is an integer number of seconds, and
  \<open>timedelta(seconds=4)\<close> is \<open>+ 4\<close>, \<open>timedelta(minutes=5)\<close> is \<open>300\<close>.
\<close>

type_synonym timestamp = int

text \<open>One value of the \<open>defaultdict(lambda: [None, None])\<close>: \<open>[spo2, bpm]\<close>.\<close>

type_synonym fields = "int option \<times> int option"

text \<open>
  The dictionary \<open>data\<close> in insertion order: a new key is appended, an old key is updated in
  place (\<open>AList.update\<close>).
\<close>

type_synonym data_index = "(timestamp \<times> fields) list"

text \<open>A resampled record \<open>(timestamp, spo2, bpm)\<close> and a session \<open>[start, end]\<close>.\<close>

type_synonym viatom_record = "timestamp \<times> int \<times> int"
type_synonym session = "timestamp \<times> timestamp"

text \<open>
  The exceptions the modelled code can raise. The three \<open>RuntimeError\<close>s of the source are
  told apart by their message; \<open>ChunkTooLong\<close> carries the first and last timestamp and the
  length that the message formats.
\<close>

datatype error =
    ProfileNotDetected
  | NoDataDetected
  | NoSessionsDetected
  | ChunkTooLong timestamp timestamp nat
  | UnboundLocalError
  | TypeError
  | IndexError
  | StructError

text \<open>What the code prints as a diagnostic.\<close>

datatype diag = TOOHIGH int | StageNotRecognized string

section \<open>Sleep stages: \<open>generate_dreem_hypnogram\<close>\<close>

record stage_item =
  level :: string
  seconds :: int

definition levels :: "(string \<times> string) list" where
  "levels = [(''wake'', ''WAKE''), (''rem'', ''REM''), (''light'', ''Light''), (''deep'', ''Deep'')]"

text \<open>
  The loop over \<open>json_data\<close>, with the list \<open>sleep_stages\<close> and the printed lines as state.
  \<open>[label] * intervals\<close> is the empty list for a negative \<open>intervals\<close>.
\<close>

fun hypnogram_loop :: "stage_item list \<Rightarrow> string list \<Rightarrow> diag list \<Rightarrow> string list \<times> diag list" where
  "hypnogram_loop [] sleep_stages out = (sleep_stages, out)"
| "hypnogram_loop (item # rest) sleep_stages out =
     (let intervals = seconds item div 30 in
      case map_of levels (level item) of
        Some label \<Rightarrow> hypnogram_loop rest (sleep_stages @ replicate (nat intervals) label) out
      | None \<Rightarrow> hypnogram_loop rest sleep_stages (out @ [StageNotRecognized (level item)]))"

definition generate_dreem_hypnogram :: "stage_item list \<Rightarrow> string list \<times> diag list" where
  "generate_dreem_hypnogram json_data = hypnogram_loop json_data [] []"

text \<open>
  The hypnogram as the specification words it: per entry, the mapped label once per whole
  30 seconds, nothing for a level that is not one of the four.
\<close>

definition stage_labels :: "stage_item \<Rightarrow> string list" where
  "stage_labels item =
     (if level item = ''wake'' then replicate (nat (seconds item div 30)) ''WAKE''
      else if level item = ''rem'' then replicate (nat (seconds item div 30)) ''REM''
      else if level item = ''light'' then replicate (nat (seconds item div 30)) ''Light''
      else if level item = ''deep'' then replicate (nat (seconds item div 30)) ''Deep''
      else [])"

definition recognized :: "stage_item \<Rightarrow> bool" where
  "recognized item = (level item \<in> {''wake'', ''rem'', ''light'', ''deep''})"

section \<open>Series reader and session segmenter: \<open>align_spo2_data\<close>\<close>

text \<open>
  A row of an SpO2 file is given as its localised timestamp and the value
  \<open>round(float(row["value"]))\<close>; an entry of a heart-rate file as its localised timestamp and
  \<open>entry["value"]["bpm"]\<close>. Parsing the text and the timezone conversion are left to the
  Python library.
\<close>

fun read_csv :: "(timestamp \<times> int) list \<Rightarrow> (timestamp \<times> int) list" where
  "read_csv [] = []"
| "read_csv ((timestamp, v) # rows) =
     (if v < 61 then read_csv rows
      else if v = 100 then (timestamp, 99) # read_csv rows
      else (timestamp, v) # read_csv rows)"

definition read_json :: "(timestamp \<times> int) list \<Rightarrow> (timestamp \<times> int) list" where
  "read_json entries = entries"

definition lookup :: "data_index \<Rightarrow> timestamp \<Rightarrow> fields" where
  "lookup d t = (case map_of d t of None \<Rightarrow> (None, None) | Some v \<Rightarrow> v)"

text \<open>\<open>data[timestamp][0] = value\<close> and \<open>data[timestamp][1] = value\<close>.\<close>

definition set_spo2 :: "timestamp \<Rightarrow> int \<Rightarrow> data_index \<Rightarrow> data_index" where
  "set_spo2 t v d = AList.update t (Some v, snd (lookup d t)) d"

definition set_bpm :: "timestamp \<Rightarrow> int \<Rightarrow> data_index \<Rightarrow> data_index" where
  "set_bpm t v d = AList.update t (fst (lookup d t), Some v) d"

text \<open>\<open>sessions[-1].append(prev_timestamp)\<close>.\<close>

definition close_last :: "timestamp list list \<Rightarrow> timestamp \<Rightarrow> timestamp list list" where
  "close_last sessions p = butlast sessions @ [last sessions @ [p]]"

text \<open>
  The loop over the rows that \<open>read_csv\<close> yields, file after file. The state is
  \<open>sessions\<close>, \<open>data\<close> and \<open>prev_timestamp\<close>, which is unbound (\<open>None\<close>) before the first row.
\<close>

fun spo2_loop :: "(timestamp \<times> int) list \<Rightarrow> timestamp list list \<Rightarrow> data_index \<Rightarrow> timestamp option
    \<Rightarrow> error + (timestamp list list \<times> data_index \<times> timestamp option)" where
  "spo2_loop [] sessions d prev = Inr (sessions, d, prev)"
| "spo2_loop ((timestamp, v) # rows) sessions d prev =
     (if length sessions = 0
      then spo2_loop rows (sessions @ [[timestamp]]) (set_spo2 timestamp v d) (Some timestamp)
      else
        (case prev of
           None \<Rightarrow> Inl UnboundLocalError
         | Some prev_timestamp \<Rightarrow>
             if timestamp - prev_timestamp > 300
             then spo2_loop rows (close_last sessions prev_timestamp @ [[timestamp]])
                    (set_spo2 timestamp v d) (Some timestamp)
             else spo2_loop rows sessions (set_spo2 timestamp v d) (Some timestamp)))"

text \<open>
  Lines 95 to 112: the loop, the failure on no session, and the closing of the last session.
\<close>

definition segment_sessions :: "(timestamp \<times> int) list list
    \<Rightarrow> error + (timestamp list list \<times> data_index)" where
  "segment_sessions csv_files =
     (case spo2_loop (concat (map read_csv csv_files)) [] [] None of
        Inl e \<Rightarrow> Inl e
      | Inr (sessions, d, prev) \<Rightarrow>
          if length sessions = 0 then Inl NoSessionsDetected
          else if length (last sessions) = 1
          then (case prev of
                  None \<Rightarrow> Inl UnboundLocalError
                | Some prev_timestamp \<Rightarrow> Inr (close_last sessions prev_timestamp, d))
          else Inr (sessions, d))"

text \<open>The loop over the heart-rate entries, with \<open>data\<close> and \<open>last_bpm_timestamp\<close>.\<close>

fun bpm_loop :: "(timestamp \<times> int) list \<Rightarrow> data_index \<Rightarrow> timestamp option
    \<Rightarrow> data_index \<times> timestamp option" where
  "bpm_loop [] d last_bpm_timestamp = (d, last_bpm_timestamp)"
| "bpm_loop ((timestamp, v) # entries) d last_bpm_timestamp =
     bpm_loop entries (set_bpm timestamp v d) (Some timestamp)"

text \<open>
  The filter loop. \<open>s[1]\<close> needs a second element, and a datetime does not compare with
  \<open>None\<close>. A kept session \<open>[start, end]\<close> is handed on as the pair \<open>(start, end)\<close>.
\<close>

fun filter_sessions :: "timestamp list list \<Rightarrow> timestamp option \<Rightarrow> session list
    \<Rightarrow> error + session list" where
  "filter_sessions [] last_bpm_timestamp filtered_sessions = Inr filtered_sessions"
| "filter_sessions (s # rest) last_bpm_timestamp filtered_sessions =
     (case s of
        s0 # s1 # _ \<Rightarrow>
          (case last_bpm_timestamp of
             None \<Rightarrow> Inl TypeError
           | Some l \<Rightarrow>
               if s1 < l then filter_sessions rest last_bpm_timestamp (filtered_sessions @ [(s0, s1)])
               else filter_sessions rest last_bpm_timestamp filtered_sessions)
      | _ \<Rightarrow> Inl IndexError)"

definition align_spo2_data :: "(timestamp \<times> int) list list \<Rightarrow> (timestamp \<times> int) list list
    \<Rightarrow> error + (session list \<times> data_index)" where
  "align_spo2_data csv_files json_files =
     (case segment_sessions csv_files of
        Inl e \<Rightarrow> Inl e
      | Inr (sessions, d) \<Rightarrow>
          (case bpm_loop (concat (map read_json json_files)) d None of
             (d', last_bpm_timestamp) \<Rightarrow>
               (case filter_sessions sessions last_bpm_timestamp [] of
                  Inl e \<Rightarrow> Inl e
                | Inr filtered_sessions \<Rightarrow> Inr (filtered_sessions, d'))))"

text \<open>
  The segmentation as the specification words it: \<open>runs\<close> cuts the SpO2 timestamps, in
  input order, between two consecutive ones more than 5 minutes apart and nowhere else; a
  session is the first and the last timestamp of a run. \<open>within\<close> says that no gap inside a
  run exceeds 5 minutes, \<open>between\<close> that each run starts more than 5 minutes after the
  one before it ends.
\<close>

fun runs :: "timestamp list \<Rightarrow> timestamp list list" where
  "runs [] = []"
| "runs [t] = [[t]]"
| "runs (t # u # ts) =
     (if u - t > 300 then [t] # runs (u # ts)
      else (case runs (u # ts) of r # rs \<Rightarrow> (t # r) # rs | [] \<Rightarrow> [[t]]))"

definition ends :: "timestamp list \<Rightarrow> timestamp list" where
  "ends r = [hd r, last r]"

fun within :: "timestamp list \<Rightarrow> bool" where
  "within (t # u # ts) = (u - t \<le> 300 \<and> within (u # ts))"
| "within _ = True"

fun between :: "timestamp list list \<Rightarrow> bool" where
  "between (r # q # rs) = (hd q - last r > 300 \<and> between (q # rs))"
| "between _ = True"

section \<open>Grid resampler and chunker: \<open>divide_data_to_viatom_chunks\<close>\<close>

text \<open>
  The \<open>while\<close> loop of lines 144 to 150. \<open>spo2\<close> and \<open>bpm\<close> are local variables that stay
  unbound (\<open>None\<close>) until an index entry with the field has been walked; building the record
  from an unbound one raises. The loop returns the final \<open>timestamp\<close>.
\<close>

function while_emit :: "timestamp \<Rightarrow> timestamp \<Rightarrow> int option \<Rightarrow> int option
    \<Rightarrow> viatom_record list list \<Rightarrow> viatom_record list
    \<Rightarrow> error + (timestamp \<times> viatom_record list list \<times> viatom_record list)" where
  "while_emit timestamp end_timestamp spo2 bpm chunks chunk =
     (if timestamp < end_timestamp
      then
        (case (spo2, bpm) of
           (Some s, Some b) \<Rightarrow>
             if length chunk \<ge> 4095
             then while_emit (timestamp + 4) end_timestamp spo2 bpm (chunks @ [chunk]) [(timestamp, s, b)]
             else while_emit (timestamp + 4) end_timestamp spo2 bpm chunks (chunk @ [(timestamp, s, b)])
         | _ \<Rightarrow> Inl UnboundLocalError)
      else Inr (timestamp, chunks, chunk))"
  by pat_completeness auto
termination
  by (relation "measure (\<lambda>(t, e, s, b, cs, c). nat (e - t))") auto

declare while_emit.simps [simp del]

record walk_state =
  w_chunks :: "viatom_record list list"
  w_chunk :: "viatom_record list"
  w_spo2 :: "int option"
  w_bpm :: "int option"
  w_last_timestamp :: "timestamp option"

text \<open>
  \<open>if values[0] is not None: spo2 = values[0]\<close>, and the same for \<open>bpm\<close>: the variable keeps
  its value, or stays unbound, when the entry has no value for the field.
\<close>

definition carry :: "int option \<Rightarrow> int option \<Rightarrow> int option" where
  "carry v old = (case v of Some n \<Rightarrow> Some n | None \<Rightarrow> old)"

text \<open>Lines 131 to 134: the timestamp at which the walk of an index entry starts.\<close>

definition start_timestamp :: "walk_state \<Rightarrow> timestamp \<times> fields \<Rightarrow> timestamp" where
  "start_timestamp st x = (case w_last_timestamp st of None \<Rightarrow> fst x | Some l \<Rightarrow> l)"

text \<open>
  The loop \<open>for i in range(len(sorted_data) - 1)\<close>: \<open>x\<close> is \<open>sorted_data[i]\<close> and \<open>y\<close> is
  \<open>sorted_data[i + 1]\<close>.
\<close>

fun walk :: "session \<Rightarrow> (timestamp \<times> fields) list \<Rightarrow> walk_state \<Rightarrow> error + walk_state" where
  "walk session (x # y # rest) st =
     (let timestamp = start_timestamp st x;
          end_timestamp = fst y;
          values = snd x;
          spo2' = carry (fst values) (w_spo2 st);
          bpm' = carry (snd values) (w_bpm st)
      in
        if timestamp < fst session \<or> timestamp > snd session
        then walk session (y # rest) (st\<lparr>w_spo2 := spo2', w_bpm := bpm'\<rparr>)
        else
          (case while_emit timestamp end_timestamp spo2' bpm' (w_chunks st) (w_chunk st) of
             Inl e \<Rightarrow> Inl e
           | Inr (timestamp', chunks', chunk') \<Rightarrow>
               walk session (y # rest)
                 \<lparr>w_chunks = chunks', w_chunk = chunk', w_spo2 = spo2', w_bpm = bpm',
                  w_last_timestamp = Some timestamp'\<rparr>))"
| "walk session _ st = Inr st"

text \<open>
  The body of \<open>for session in sessions\<close>: \<open>last_timestamp = None\<close>, the walk, and the sealing
  of a non-empty chunk.
\<close>

definition walk_session :: "(timestamp \<times> fields) list \<Rightarrow> session \<Rightarrow> walk_state \<Rightarrow> error + walk_state" where
  "walk_session sorted_data session st =
     (case walk session sorted_data (st\<lparr>w_last_timestamp := None\<rparr>) of
        Inl e \<Rightarrow> Inl e
      | Inr st' \<Rightarrow>
          if w_chunk st' \<noteq> [] then Inr (st'\<lparr>w_chunks := w_chunks st' @ [w_chunk st'], w_chunk := []\<rparr>)
          else Inr st')"

fun sessions_loop :: "(timestamp \<times> fields) list \<Rightarrow> session list \<Rightarrow> walk_state \<Rightarrow> error + walk_state" where
  "sessions_loop sorted_data [] st = Inr st"
| "sessions_loop sorted_data (session # rest) st =
     (case walk_session sorted_data session st of
        Inl e \<Rightarrow> Inl e
      | Inr st' \<Rightarrow> sessions_loop sorted_data rest st')"

text \<open>\<open>sorted(data.items())\<close>: the keys of a dictionary differ, so only they are compared.\<close>

definition sorted_items :: "data_index \<Rightarrow> (timestamp \<times> fields) list" where
  "sorted_items d = sort_key fst d"

definition init_state :: walk_state where
  "init_state = \<lparr>w_chunks = [], w_chunk = [], w_spo2 = None, w_bpm = None, w_last_timestamp = None\<rparr>"

definition divide_data_to_viatom_chunks :: "session list \<Rightarrow> data_index
    \<Rightarrow> error + viatom_record list list" where
  "divide_data_to_viatom_chunks sessions d =
     (case sessions_loop (sorted_items d) sessions init_state of
        Inl e \<Rightarrow> Inl e
      | Inr st \<Rightarrow> if w_chunk st \<noteq> [] then Inr (w_chunks st @ [w_chunk st]) else Inr (w_chunks st))"

text \<open>
  The resampling as the specification words it, with no chunks. \<open>grid t e\<close>: the timestamps
  every 4 seconds from \<open>t\<close> until \<open>e\<close> is reached. \<open>emitted\<close>: one record per timestamp with
  the values carried forward (none while a field has never been observed: there the code
  raises if it has a record to build). \<open>resample\<close>: between two consecutive index timestamps
  the grid starts at the first one or, after the first interval walked, where the grid
  before it left off, and an interval is walked only if that start lies within the session.
  \<open>carried\<close> is the value a field has after the walk of the index, and
  \<open>resample_sessions\<close> the records of each session in turn.
\<close>

function grid :: "timestamp \<Rightarrow> timestamp \<Rightarrow> timestamp list" where
  "grid t e = (if t < e then t # grid (t + 4) e else [])"
  by pat_completeness auto
termination
  by (relation "measure (\<lambda>(t, e). nat (e - t))") auto

declare grid.simps [simp del]

definition emitted :: "int option \<Rightarrow> int option \<Rightarrow> timestamp list \<Rightarrow> viatom_record list" where
  "emitted sp bp ts = (case (sp, bp) of (Some s, Some b) \<Rightarrow> map (\<lambda>u. (u, s, b)) ts | _ \<Rightarrow> [])"

fun resample :: "session \<Rightarrow> (timestamp \<times> fields) list \<Rightarrow> timestamp option \<Rightarrow> int option
    \<Rightarrow> int option \<Rightarrow> viatom_record list" where
  "resample session (x # y # rest) left_off sp bp =
     (let t = (case left_off of None \<Rightarrow> fst x | Some l \<Rightarrow> l);
          sp' = carry (fst (snd x)) sp;
          bp' = carry (snd (snd x)) bp
      in
        if t < fst session \<or> snd session < t
        then resample session (y # rest) left_off sp' bp'
        else emitted sp' bp' (grid t (fst y))
             @ resample session (y # rest) (Some (t + 4 * int (length (grid t (fst y))))) sp' bp')"
| "resample session _ left_off sp bp = []"

definition carried :: "(fields \<Rightarrow> int option) \<Rightarrow> (timestamp \<times> fields) list \<Rightarrow> int option
    \<Rightarrow> int option" where
  "carried f xs v = foldl (\<lambda>a x. carry (f (snd x)) a) v (butlast xs)"

fun resample_sessions :: "(timestamp \<times> fields) list \<Rightarrow> session list \<Rightarrow> int option \<Rightarrow> int option
    \<Rightarrow> viatom_record list list" where
  "resample_sessions sd [] sp bp = []"
| "resample_sessions sd (session # rest) sp bp =
     resample session sd None sp bp # resample_sessions sd rest (carried fst sd sp) (carried snd sd bp)"

text \<open>
  Two properties of the output. \<open>spaced4\<close>: each record of a chunk is 4 seconds after
  the record before it. \<open>in_window\<close>, for a session and the set \<open>K\<close> of the timestamps of
  the index: the record is not before the start of the session, it is before every index
  timestamp that is after the end of the session, and it is before some index timestamp.
\<close>

fun spaced4 :: "viatom_record list \<Rightarrow> bool" where
  "spaced4 (r # q # rs) = (fst q = fst r + 4 \<and> spaced4 (q # rs))"
| "spaced4 _ = True"

definition in_window :: "session \<Rightarrow> timestamp set \<Rightarrow> viatom_record \<Rightarrow> bool" where
  "in_window session K r =
     (fst session \<le> fst r \<and> (\<forall>k \<in> K. snd session < k \<longrightarrow> fst r < k) \<and> (\<exists>k \<in> K. fst r < k))"

text \<open>
  The invariants of the walk. \<open>good Q\<close>: a chunk is within the cap, evenly spaced, and
  holds only records with \<open>Q\<close>. \<open>stamp_ok\<close>, before the index entry with timestamp \<open>h\<close> is
  walked: with no \<open>last_timestamp\<close> the chunk is still empty; otherwise \<open>last_timestamp\<close> is not
  before the start of the session, it has reached \<open>h\<close> or passed the end of the session, and
  it is 4 seconds after the last record of a non-empty chunk.
\<close>

definition good :: "(viatom_record \<Rightarrow> bool) \<Rightarrow> viatom_record list \<Rightarrow> bool" where
  "good Q c = (length c \<le> 4095 \<and> spaced4 c \<and> (\<forall>r \<in> set c. Q r))"

definition stamp_ok :: "session \<Rightarrow> timestamp \<Rightarrow> walk_state \<Rightarrow> bool" where
  "stamp_ok session h st =
     (case w_last_timestamp st of
        None \<Rightarrow> w_chunk st = []
      | Some l \<Rightarrow> fst session \<le> l \<and> (h \<le> l \<or> snd session < l)
                  \<and> (w_chunk st \<noteq> [] \<longrightarrow> l = fst (last (w_chunk st)) + 4))"

text \<open>
  \<open>session_part\<close>: the chunks that the walk of one session appends are full chunks of 4095
  records followed by at most one more, non-empty, chunk, all of them \<open>good\<close> for the window
  of that session.
\<close>

definition session_part :: "session \<Rightarrow> timestamp set \<Rightarrow> viatom_record list list \<Rightarrow> bool" where
  "session_part s K new =
     (\<exists>full rest. new = full @ rest
        \<and> (\<forall>c \<in> set full. length c = 4095 \<and> good (in_window s K) c)
        \<and> length rest \<le> 1
        \<and> (\<forall>c \<in> set rest. c \<noteq> [] \<and> good (in_window s K) c))"

section \<open>Binary writer: \<open>write_to_viatom_file\<close>\<close>

type_synonym byte = "8 word"

text \<open>
  \<open>struct.pack\<close> raises \<open>struct.error\<close> on a value outside the range of its format:
  \<open><B\<close> one byte, \<open><H\<close> two bytes and \<open><I\<close> four bytes, least significant first.
\<close>

definition pack_B :: "int \<Rightarrow> error + byte list" where
  "pack_B v = (if 0 \<le> v \<and> v \<le> 255 then Inr [word_of_int v] else Inl StructError)"

definition pack_H :: "int \<Rightarrow> error + byte list" where
  "pack_H v =
     (if 0 \<le> v \<and> v \<le> 65535 then Inr [word_of_int (v mod 256), word_of_int (v div 256)]
      else Inl StructError)"

definition pack_I :: "int \<Rightarrow> error + byte list" where
  "pack_I v =
     (if 0 \<le> v \<and> v \<le> 4294967295
      then Inr [word_of_int (v mod 256), word_of_int (v div 256 mod 256),
                word_of_int (v div 65536 mod 256), word_of_int (v div 16777216)]
      else Inl StructError)"

definition pack_BBBBB :: "int \<Rightarrow> int \<Rightarrow> int \<Rightarrow> int \<Rightarrow> int \<Rightarrow> error + byte list" where
  "pack_BBBBB a b c d e =
     (if (\<forall>v \<in> set [a, b, c, d, e]. 0 \<le> v \<and> v \<le> 255)
      then Inr (map word_of_int [a, b, c, d, e]) else Inl StructError)"

text \<open>
  The calendar fields of a datetime. The function from a timestamp to its fields belongs to
  Python's \<open>datetime\<close>; the writer takes it as the parameter \<open>cal\<close>. Python keeps the fields
  of every datetime within \<open>valid_civil\<close>.
\<close>

record civil =
  year :: int
  month :: int
  day :: int
  hour :: int
  minute :: int
  second :: int

definition valid_civil :: "civil \<Rightarrow> bool" where
  "valid_civil c =
     (1 \<le> year c \<and> year c \<le> 9999 \<and> 1 \<le> month c \<and> month c \<le> 12 \<and> 1 \<le> day c \<and> day c \<le> 31
      \<and> 0 \<le> hour c \<and> hour c \<le> 23 \<and> 0 \<le> minute c \<and> minute c \<le> 59
      \<and> 0 \<le> second c \<and> second c \<le> 59)"

text \<open>
  The open file: the bytes written so far, the lines printed, and the exception once one is
  raised, after which nothing more is written or printed.
\<close>

record wstate =
  written :: "byte list"
  printed :: "diag list"
  raised :: "error option"

definition f_write :: "error + byte list \<Rightarrow> wstate \<Rightarrow> wstate" where
  "f_write packed st =
     (case raised st of
        Some _ \<Rightarrow> st
      | None \<Rightarrow>
          (case packed of
             Inl e \<Rightarrow> st\<lparr>raised := Some e\<rparr>
           | Inr bs \<Rightarrow> st\<lparr>written := written st @ bs\<rparr>))"

definition print_diag :: "diag \<Rightarrow> wstate \<Rightarrow> wstate" where
  "print_diag d st = (case raised st of Some _ \<Rightarrow> st | None \<Rightarrow> st\<lparr>printed := printed st @ [d]\<rparr>)"

text \<open>Lines 167 to 183.\<close>

definition write_header :: "civil \<Rightarrow> nat \<Rightarrow> wstate \<Rightarrow> wstate" where
  "write_header c n st =
     f_write (Inr (replicate 25 0))
       (f_write (pack_H (int n * 4))
         (f_write (pack_I (int n * 5 + 40))
           (f_write (pack_BBBBB (month c) (day c) (hour c) (minute c) (second c))
             (f_write (pack_H (year c))
               (f_write (Inr [5, 0]) st)))))"

text \<open>The body of \<open>for record in data\<close>, lines 187 to 199.\<close>

definition write_record :: "viatom_record \<Rightarrow> wstate \<Rightarrow> wstate" where
  "write_record r st =
     (case r of (t, r1, r2) \<Rightarrow>
        if r1 \<le> 61
        then f_write (Inr [255, 0, 0]) (f_write (pack_B r2) (f_write (Inr [255]) st))
        else
          f_write (Inr [0, 0, 0])
            (f_write (pack_B r2)
              (if r1 > 99 then f_write (pack_B 99) (print_diag (TOOHIGH r1) st)
               else f_write (pack_B r1) st)))"

text \<open>
  The result is the name of the file (the fields that \<open>strftime\<close> formats, \<open>None\<close> when the
  function raises before it opens a file) and the state of the file. The closing report
  line formats a floating-point duration and is not part of the model.
\<close>

definition write_to_viatom_file :: "(timestamp \<Rightarrow> civil) \<Rightarrow> viatom_record list
    \<Rightarrow> civil option \<times> wstate" where
  "write_to_viatom_file cal rs =
     (case rs of
        [] \<Rightarrow> (None, \<lparr>written = [], printed = [], raised = Some IndexError\<rparr>)
      | r # _ \<Rightarrow>
          if length rs > 4095
          then (None, \<lparr>written = [], printed = [],
                  raised = Some (ChunkTooLong (fst r) (fst (last rs)) (length rs))\<rparr>)
          else (Some (cal (fst r)),
                fold write_record rs
                  (write_header (cal (fst r)) (length rs)
                     \<lparr>written = [], printed = [], raised = None\<rparr>)))"

text \<open>
  The header as the format table of the specification lays it out: offsets 2 and 3 the year,
  4 to 8 month, day, hour, minute and second, 9 to 12 the file size, 13 and 14 the duration.
\<close>

record header =
  h_stamp :: civil
  h_file_size :: nat
  h_duration :: nat

definition decode_header :: "byte list \<Rightarrow> header" where
  "decode_header bs =
     \<lparr>h_stamp = \<lparr>year = int (unat (bs ! 2) + 256 * unat (bs ! 3)), month = int (unat (bs ! 4)),
                 day = int (unat (bs ! 5)), hour = int (unat (bs ! 6)),
                 minute = int (unat (bs ! 7)), second = int (unat (bs ! 8))\<rparr>,
      h_file_size = unat (bs ! 9) + 256 * unat (bs ! 10) + 65536 * unat (bs ! 11)
                    + 16777216 * unat (bs ! 12),
      h_duration = unat (bs ! 13) + 256 * unat (bs ! 14)\<rparr>"

section \<open>The pipeline: \<open>export_spo2_as_viatom\<close>\<close>

text \<open>
  \<open>read_profile_timezone\<close> over the rows of the profile. A row is given as its \<open>timezone\<close>
  cell, \<open>None\<close> when the row has no such cell (\<open>csv.DictReader\<close> then gives \<open>None\<close>). The loop
  keeps the cell of the last row; no row, or a last row without the cell, raises.
\<close>

definition read_profile_timezone :: "string option list \<Rightarrow> error + string" where
  "read_profile_timezone rows =
     (case foldl (\<lambda>timezone row. row) None rows of
        None \<Rightarrow> Inl ProfileNotDetected
      | Some timezone \<Rightarrow> Inr timezone)"

text \<open>
  The loop \<open>for chunk in chunks\<close>: the files written so far, and the exception that ends
  the run if one is raised.
\<close>

fun write_chunks :: "(timestamp \<Rightarrow> civil) \<Rightarrow> viatom_record list list
    \<Rightarrow> (civil option \<times> wstate) list \<Rightarrow> (civil option \<times> wstate) list \<times> error option" where
  "write_chunks cal [] files = (files, None)"
| "write_chunks cal (c # rest) files =
     (case write_to_viatom_file cal c of
        (name, st) \<Rightarrow>
          (case raised st of
             Some e \<Rightarrow> (if name = None then files else files @ [(name, st)], Some e)
           | None \<Rightarrow> write_chunks cal rest (files @ [(name, st)])))"

text \<open>
  The files are given as their rows: \<open>csv_files\<close> and \<open>json_files\<close> are the lists that
  \<open>get_spo2_files\<close> returns. The result is the files written and the exception that ends
  the run, if any; the lines that list the timezone and the detected sessions are printed
  and change nothing else.
\<close>

definition export_spo2_as_viatom :: "(timestamp \<Rightarrow> civil) \<Rightarrow> string option list
    \<Rightarrow> (timestamp \<times> int) list list \<Rightarrow> (timestamp \<times> int) list list
    \<Rightarrow> (civil option \<times> wstate) list \<times> error option" where
  "export_spo2_as_viatom cal profile csv_files json_files =
     (case read_profile_timezone profile of
        Inl e \<Rightarrow> ([], Some e)
      | Inr timezone \<Rightarrow>
          if length csv_files = 0 \<or> length json_files = 0 then ([], Some NoDataDetected)
          else
            (case align_spo2_data csv_files json_files of
               Inl e \<Rightarrow> ([], Some e)
             | Inr (sessions, d) \<Rightarrow>
                 (case divide_data_to_viatom_chunks sessions d of
                    Inl e \<Rightarrow> ([], Some e)
                  | Inr chunks \<Rightarrow> write_chunks cal chunks [])))"

section \<open>Sleep stages: results\<close>

lemma hypnogram_loop_eq:
  "hypnogram_loop items acc out =
     (acc @ concat (map stage_labels items),
      out @ map (\<lambda>i. StageNotRecognized (level i)) (filter (\<lambda>i. \<not> recognized i) items))"
proof (induction items arbitrary: acc out)
  case Nil
  show ?case by simp
next
  case (Cons item rest)
  show ?case
    by (simp add: Cons.IH Let_def levels_def stage_labels_def recognized_def)
qed

text \<open>
  C9. The hypnogram is the concatenation, in input order, of each entry's labels: the mapped
  label \<open>seconds div 30\<close> times for a recognized level, nothing for any other level. Every
  entry with another level is reported by one printed line, and the function returns a result
  on every input.
\<close>

theorem C9_hypnogram:
  "fst (generate_dreem_hypnogram json_data) = concat (map stage_labels json_data)
   \<and> snd (generate_dreem_hypnogram json_data)
       = map (\<lambda>i. StageNotRecognized (level i)) (filter (\<lambda>i. \<not> recognized i) json_data)
   \<and> (0 \<le> seconds item \<and> recognized item \<longrightarrow>
        int (length (stage_labels item)) = seconds item div 30)
   \<and> (\<not> recognized item \<longrightarrow> stage_labels item = [])"
  by (auto simp add: generate_dreem_hypnogram_def hypnogram_loop_eq stage_labels_def recognized_def)

theorem C9_hypnogram_witness:
  "generate_dreem_hypnogram
     [\<lparr>level = ''wake'', seconds = 95\<rparr>, \<lparr>level = ''nap'', seconds = 600\<rparr>,
      \<lparr>level = ''deep'', seconds = 60\<rparr>]
   = ([''WAKE'', ''WAKE'', ''WAKE'', ''Deep'', ''Deep''], [StageNotRecognized ''nap''])
   \<and> int (length (stage_labels \<lparr>level = ''wake'', seconds = 95\<rparr>)) = 3
   \<and> stage_labels \<lparr>level = ''nap'', seconds = 600\<rparr> = []"
  using C9_hypnogram [of "[\<lparr>level = ''wake'', seconds = 95\<rparr>, \<lparr>level = ''nap'', seconds = 600\<rparr>,
      \<lparr>level = ''deep'', seconds = 60\<rparr>]" "\<lparr>level = ''wake'', seconds = 95\<rparr>"]
    C9_hypnogram [of "[]" "\<lparr>level = ''nap'', seconds = 600\<rparr>"]
  by (simp add: generate_dreem_hypnogram_def stage_labels_def recognized_def levels_def
      numeral_eq_Suc)

section \<open>SpO2 values from the reader to the writer\<close>

lemma read_csv_eq:
  "read_csv rows =
     map (\<lambda>(t, v). (t, if v = 100 then 99 else v)) (filter (\<lambda>(t, v). 61 \<le> v) rows)"
  by (induction rows rule: read_csv.induct) auto

lemma uint_byte: "0 \<le> v \<Longrightarrow> v \<le> 255 \<Longrightarrow> uint (word_of_int v :: byte) = v"
  by (simp add: uint_word_of_int take_bit_int_eq_self)

text \<open>
  C6, as the claim states it, fails at the value 61: the reader keeps it (\<open>value < 61\<close> is
  what it drops), and the writer, whose test is \<open>record[1] <= 61\<close>, writes the invalid marker
  \<open>0xFF\<close> in its place and \<open>0xFF 0x00 0x00\<close> after the heart rate.
\<close>

theorem C6_value_61_counterexample:
  "read_csv [(0, 61)] = [(0, 61)]
   \<and> written (write_record (0, 61, 70) \<lparr>written = [], printed = [], raised = None\<rparr>)
       = [255, 70, 255, 0, 0]"
  by (simp add: write_record_def f_write_def pack_B_def)

text \<open>
  C6, amended. The reader drops every row whose rounded value is at most 60, keeps the others
  in order, and turns 100 into 99. The writer writes a value from 62 to 99 as that byte,
  followed by the heart-rate byte and three zero bytes; it writes a value above 99 as the byte
  99 and prints \<open>TOOHIGH\<close>, without raising.
\<close>

theorem C6_spo2_values:
  "read_csv rows
     = map (\<lambda>(t, v). (t, if v = 100 then 99 else v)) (filter (\<lambda>(t, v). 61 \<le> v) rows)
   \<and> (raised st = None \<and> 62 \<le> v \<and> v \<le> 99 \<and> 0 \<le> b \<and> b \<le> 255 \<longrightarrow>
        write_record (t, v, b) st
          = st\<lparr>written := written st @ [word_of_int v, word_of_int b, 0, 0, 0]\<rparr>
        \<and> uint (word_of_int v :: byte) = v)
   \<and> (raised st = None \<and> 99 < v \<and> 0 \<le> b \<and> b \<le> 255 \<longrightarrow>
        write_record (t, v, b) st
          = st\<lparr>written := written st @ [99, word_of_int b, 0, 0, 0],
               printed := printed st @ [TOOHIGH v]\<rparr>)"
  by (auto simp add: read_csv_eq write_record_def f_write_def print_diag_def pack_B_def uint_byte)

theorem C6_spo2_values_witness:
  "read_csv [(0, 60), (60, 61), (120, 100), (180, 97)] = [(60, 61), (120, 99), (180, 97)]
   \<and> write_record (180, 97, 70) \<lparr>written = [], printed = [], raised = None\<rparr>
       = \<lparr>written = [97, 70, 0, 0, 0], printed = [], raised = None\<rparr>
   \<and> write_record (180, 101, 70) \<lparr>written = [], printed = [], raised = None\<rparr>
       = \<lparr>written = [99, 70, 0, 0, 0], printed = [TOOHIGH 101], raised = None\<rparr>"
  using C6_spo2_values [of "[(0, 60), (60, 61), (120, 100), (180, 97)]"
      "\<lparr>written = [], printed = [], raised = None\<rparr>" 97 70 180]
    C6_spo2_values [of "[]" "\<lparr>written = [], printed = [], raised = None\<rparr>" 101 70 180]
  by simp

section \<open>The header of a written file\<close>

lemma unat_byte: "0 \<le> v \<Longrightarrow> v \<le> 255 \<Longrightarrow> unat (word_of_int v :: byte) = nat v"
  by (simp add: unat_eq_nat_uint uint_byte)

lemma le_bytes2: "0 \<le> v \<Longrightarrow> nat (v mod 256) + 256 * nat (v div 256) = nat v"
proof -
  assume v: "0 \<le> v"
  then have "int (nat (v mod 256) + 256 * nat (v div 256)) = v"
    by (simp add: pos_imp_zdiv_nonneg_iff)
  then show ?thesis by linarith
qed

lemma byte_div: "0 \<le> (v::int) \<Longrightarrow> v \<le> 65535 \<Longrightarrow> 0 \<le> v div 256 \<and> v div 256 \<le> 255"
  using zdiv_mono1 [of v 65535 256] by (simp add: pos_imp_zdiv_nonneg_iff)

lemma byte_mod: "0 \<le> (v::int) mod 256 \<and> v mod 256 \<le> 255"
  using pos_mod_bound [of 256 v] by simp

lemma unat_lo: "unat (word_of_int (v mod 256) :: byte) = nat (v mod 256)"
  using byte_mod [of v] by (simp add: unat_byte)

lemma unat_hi: "0 \<le> v \<Longrightarrow> v \<le> 65535 \<Longrightarrow> unat (word_of_int (v div 256) :: byte) = nat (v div 256)"
  using byte_div [of v] by (simp add: unat_byte)

lemma unat_pair:
  "0 \<le> v \<Longrightarrow> v \<le> 65535 \<Longrightarrow>
   unat (word_of_int (v mod 256) :: byte) + 256 * unat (word_of_int (v div 256) :: byte) = nat v"
  by (simp only: unat_lo unat_hi le_bytes2)

lemma small_div: "0 \<le> (v::int) \<Longrightarrow> v \<le> 65535 \<Longrightarrow> v div 256 mod 256 = v div 256 \<and> v div 65536 mod 256 = 0 \<and> v div 16777216 = 0"
  using byte_div [of v] by (simp add: div_pos_pos_trivial)

lemma unat_quad:
  "0 \<le> v \<Longrightarrow> v \<le> 65535 \<Longrightarrow>
   unat (word_of_int (v mod 256) :: byte) + 256 * unat (word_of_int (v div 256 mod 256) :: byte)
   + 65536 * unat (word_of_int (v div 65536 mod 256) :: byte) 
   + 16777216 * unat (word_of_int (v div 16777216) :: byte) = nat v"
  using unat_pair [of v] by (simp add: small_div)

lemma write_record_written: "\<exists>bs. written (write_record r st) = written st @ bs"
  by (cases r) (auto simp add: write_record_def f_write_def print_diag_def split: option.splits sum.splits)

lemma fold_write_record_written: "\<exists>bs. written (fold write_record rs st) = written st @ bs"
proof (induction rs arbitrary: st)
  case Nil
  show ?case by simp
next
  case (Cons r rs)
  obtain b1 where b1: "written (write_record r st) = written st @ b1"
    using write_record_written by blast
  obtain b2 where "written (fold write_record rs (write_record r st)) = written (write_record r st) @ b2"
    using Cons.IH by blast
  with b1 show ?case by simp
qed

lemma write_header_eq:
  assumes "valid_civil c" "n \<le> 4095"
  shows "write_header c n \<lparr>written = [], printed = [], raised = None\<rparr>
         = \<lparr>written = [5, 0, word_of_int (year c mod 256), word_of_int (year c div 256),
      word_of_int (month c), word_of_int (day c), word_of_int (hour c),
      word_of_int (minute c), word_of_int (second c),
      word_of_int ((int n * 5 + 40) mod 256), word_of_int ((int n * 5 + 40) div 256 mod 256),
      word_of_int ((int n * 5 + 40) div 65536 mod 256), word_of_int ((int n * 5 + 40) div 16777216),
      word_of_int (int n * 4 mod 256), word_of_int (int n * 4 div 256)] @ replicate 25 0, printed = [], raised = None\<rparr>"
  using assms
  by (simp add: write_header_def f_write_def pack_H_def pack_I_def pack_BBBBB_def valid_civil_def)

lemma decode_header_Cons:
  "decode_header (b0 # b1 # b2 # b3 # b4 # b5 # b6 # b7 # b8 # b9 # b10 # b11 # b12 # b13 # b14 # bs)
   = \<lparr>h_stamp = \<lparr>year = int (unat b2 + 256 * unat b3), month = int (unat b4),
                 day = int (unat b5), hour = int (unat b6),
                 minute = int (unat b7), second = int (unat b8)\<rparr>,
      h_file_size = unat b9 + 256 * unat b10 + 65536 * unat b11 + 16777216 * unat b12,
      h_duration = unat b13 + 256 * unat b14\<rparr>"
  by (simp add: decode_header_def)

lemma decode_written_header:
  assumes "valid_civil c" "n \<le> 4095"
  shows "decode_header (written (write_header c n \<lparr>written = [], printed = [], raised = None\<rparr>) @ bs)
     = \<lparr>h_stamp = c, h_file_size = n * 5 + 40, h_duration = n * 4\<rparr>"
proof -
  have y: "int (unat (word_of_int (year c mod 256) :: byte) + 256 * unat (word_of_int (year c div 256) :: byte)) = year c"
    using assms unat_pair [of "year c"] by (simp only: valid_civil_def) simp
  have f: "unat (word_of_int ((int n * 5 + 40) mod 256) :: byte) + 256 * unat (word_of_int ((int n * 5 + 40) div 256 mod 256) :: byte)
   + 65536 * unat (word_of_int ((int n * 5 + 40) div 65536 mod 256) :: byte) 
   + 16777216 * unat (word_of_int ((int n * 5 + 40) div 16777216) :: byte) = n * 5 + 40"
    using assms(2) unat_quad [of "int n * 5 + 40"] by (simp add: nat_add_distrib nat_mult_distrib)
  have d: "unat (word_of_int (int n * 4 mod 256) :: byte) + 256 * unat (word_of_int (int n * 4 div 256) :: byte) = n * 4"
    using assms(2) unat_pair [of "int n * 4"] by (simp add: nat_mult_distrib)
  have m: "int (unat (word_of_int (month c) :: byte)) = month c" "int (unat (word_of_int (day c) :: byte)) = day c"
     "int (unat (word_of_int (hour c) :: byte)) = hour c" "int (unat (word_of_int (minute c) :: byte)) = minute c"
     "int (unat (word_of_int (second c) :: byte)) = second c"
    using assms(1) by (simp_all add: valid_civil_def unat_byte)
  show ?thesis
    by (simp only: write_header_eq [OF assms] wstate.simps append_Cons append_Nil decode_header_Cons y f d m) simp
qed

lemma write_record_length:
  "raised st = None \<Longrightarrow> raised (write_record r st) = None \<Longrightarrow> length (written (write_record r st)) = length (written st) + 5"
  by (cases r) (auto simp add: write_record_def f_write_def print_diag_def pack_B_def split: option.splits sum.splits if_splits)

lemma write_record_raised:
  "raised st = Some e \<Longrightarrow> write_record r st = st"
  by (cases r) (auto simp add: write_record_def f_write_def print_diag_def)

lemma fold_write_record_raised: "raised st = Some e \<Longrightarrow> fold write_record rs st = st"
  by (induction rs) (simp_all add: write_record_raised)

lemma fold_write_record_length:
  "raised st = None \<Longrightarrow> raised (fold write_record rs st) = None \<Longrightarrow>
     length (written (fold write_record rs st)) = length (written st) + 5 * length rs"
proof (induction rs arbitrary: st)
  case Nil
  show ?case by simp
next
  case (Cons r rs)
  show ?case
  proof (cases "raised (write_record r st)")
    case None
    with Cons show ?thesis by (simp add: write_record_length)
  next
    case (Some e)
    with Cons.prems show ?thesis by (simp add: fold_write_record_raised)
  qed
qed

text \<open>
  C5. For a chunk of 1 to 4095 records whose first timestamp has the calendar fields of a
  Python datetime, the header of the written file decodes to these fields (year, month, day,
  hour, minute, second), to the file size \<open>record_count * 5 + 40\<close> and to the duration
  \<open>record_count * 4\<close>; and when the write raises nothing, the file has that many bytes.
\<close>

theorem C5_header_roundtrip:
  assumes "rs \<noteq> []" "length rs \<le> 4095" "valid_civil (cal (fst (hd rs)))"
  shows "decode_header (written (snd (write_to_viatom_file cal rs)))
           = \<lparr>h_stamp = cal (fst (hd rs)), h_file_size = length rs * 5 + 40,
              h_duration = length rs * 4\<rparr>
         \<and> (raised (snd (write_to_viatom_file cal rs)) = None \<longrightarrow>
              length (written (snd (write_to_viatom_file cal rs))) = length rs * 5 + 40)"
proof -
  let ?st0 = "\<lparr>written = [], printed = [], raised = None\<rparr>"
  obtain r rest where rs: "rs = r # rest" using assms(1) by (cases rs) auto
  let ?h = "write_header (cal (fst r)) (length rs) ?st0"
  have w: "snd (write_to_viatom_file cal rs) = fold write_record rs ?h"
    using assms(2) rs by (simp add: write_to_viatom_file_def)
  have c: "valid_civil (cal (fst r))" using assms(3) rs by simp
  obtain bs where bs: "written (fold write_record rs ?h) = written ?h @ bs"
    using fold_write_record_written by blast
  have dec: "decode_header (written (fold write_record rs ?h))
      = \<lparr>h_stamp = cal (fst r), h_file_size = length rs * 5 + 40, h_duration = length rs * 4\<rparr>"
    using decode_written_header [OF c assms(2), of bs] by (simp only: bs)
  have h: "raised ?h = None" "length (written ?h) = 40"
    using write_header_eq [OF c assms(2)] by simp_all
  have len: "raised (fold write_record rs ?h) = None \<Longrightarrow>
      length (written (fold write_record rs ?h)) = length rs * 5 + 40"
    using fold_write_record_length [of ?h rs] h by simp
  have r: "fst (hd rs) = fst r" using rs by simp
  show ?thesis
    unfolding w r using dec len by blast
qed

theorem C5_header_roundtrip_witness:
  "decode_header (written (snd (write_to_viatom_file
       (\<lambda>t. \<lparr>year = 2024, month = 2, day = 29, hour = 23, minute = 59, second = 58\<rparr>)
       [(0, 97, 70), (4, 97, 71)])))
     = \<lparr>h_stamp = \<lparr>year = 2024, month = 2, day = 29, hour = 23, minute = 59, second = 58\<rparr>,
        h_file_size = 50, h_duration = 8\<rparr>"
  using C5_header_roundtrip [of "[(0, 97, 70), (4, 97, 71)]"
      "\<lambda>t. \<lparr>year = 2024, month = 2, day = 29, hour = 23, minute = 59, second = 58\<rparr>"]
  by (simp add: valid_civil_def)

section \<open>The guard of the pipeline\<close>

text \<open>
  C7, as the claim states it, fails when the files exist and hold no row or no entry: the
  guard counts files. With one SpO2 row and an empty heart-rate file the run ends in the
  \<open>TypeError\<close> of \<open>s[1] < None\<close>, after the sessions are computed; with an SpO2 file without
  a kept row it ends in the failure of the segmenter.
\<close>

theorem C7_empty_files_counterexample:
  "export_spo2_as_viatom
     (\<lambda>t. \<lparr>year = 2024, month = 1, day = 1, hour = 0, minute = 0, second = 0\<rparr>)
     [Some ''Europe/Berlin''] [[(0, 95)]] [[]] = ([], Some TypeError)
   \<and> export_spo2_as_viatom
     (\<lambda>t. \<lparr>year = 2024, month = 1, day = 1, hour = 0, minute = 0, second = 0\<rparr>)
     [Some ''Europe/Berlin''] [[]] [[(0, 70)]] = ([], Some NoSessionsDetected)"
  by (simp add: export_spo2_as_viatom_def read_profile_timezone_def align_spo2_data_def
      segment_sessions_def close_last_def read_json_def set_spo2_def lookup_def)

text \<open>
  C7, amended. With the timezone of the profile read, if there is no SpO2 file or no
  heart-rate file, the run
  fails with "No SpO2 or heart rate data detected!" and has written no file; nothing of the
  alignment has run.
\<close>

theorem C7_no_files:
  "read_profile_timezone profile = Inr timezone \<Longrightarrow> csv_files = [] \<or> json_files = [] \<Longrightarrow>
     export_spo2_as_viatom cal profile csv_files json_files = ([], Some NoDataDetected)"
  by (auto simp add: export_spo2_as_viatom_def)

theorem C7_no_files_witness:
  "read_profile_timezone [Some ''Europe/Berlin''] = Inr ''Europe/Berlin''
   \<and> export_spo2_as_viatom
       (\<lambda>t. \<lparr>year = 2024, month = 1, day = 1, hour = 0, minute = 0, second = 0\<rparr>)
       [Some ''Europe/Berlin''] [] [[(0, 70)]] = ([], Some NoDataDetected)"
proof -
  have p: "read_profile_timezone [Some ''Europe/Berlin''] = Inr ''Europe/Berlin''"
    by (simp add: read_profile_timezone_def)
  from C7_no_files [OF p, of "[]" "[[(0, 70)]]"
      "\<lambda>t. \<lparr>year = 2024, month = 1, day = 1, hour = 0, minute = 0, second = 0\<rparr>"]
  show ?thesis using p by simp
qed

section \<open>Sessions\<close>

lemma runs_Cons: "\<exists>r rs. runs (t # ts) = (t # r) # rs"
proof (induction ts arbitrary: t)
  case Nil
  show ?case by simp
next
  case (Cons u ts)
  obtain r rs where "runs (u # ts) = (u # r) # rs" using Cons.IH by blast
  then show ?case by simp
qed

lemma runs_concat: "concat (runs ts) = ts"
proof (induction ts rule: runs.induct)
  case (3 t u ts)
  obtain r0 rs where r0: "runs (u # ts) = (u # r0) # rs" using runs_Cons by blast
  show ?case using 3 r0 by (auto split: if_splits)
qed auto

lemma runs_nonempty: "r \<in> set (runs ts) \<Longrightarrow> r \<noteq> []"
proof (induction ts arbitrary: r rule: runs.induct)
  case (3 t u ts)
  obtain r0 rs where r0: "runs (u # ts) = (u # r0) # rs" using runs_Cons by blast
  show ?case using 3 r0 by (auto split: if_splits)
qed auto

lemma runs_within: "r \<in> set (runs ts) \<Longrightarrow> within r"
proof (induction ts arbitrary: r rule: runs.induct)
  case (3 t u ts)
  obtain r0 rs where r0: "runs (u # ts) = (u # r0) # rs" using runs_Cons by blast
  show ?case using 3 r0 by (auto split: if_splits)
qed auto

lemma runs_between: "between (runs ts)"
proof (induction ts rule: runs.induct)
  case (3 t u ts)
  obtain r0 rs where r0: "runs (u # ts) = (u # r0) # rs" using runs_Cons by blast
  show ?case using 3 r0 by (cases rs) (auto split: if_splits)
qed auto

lemma spo2_loop_runs:
  "\<exists>ss d' p'. spo2_loop rows (cl @ [[s]]) d (Some p) = Inr (ss, d', Some p')
     \<and> length (last ss) = 1 \<and> ss \<noteq> []
     \<and> close_last ss p' = cl @ (case runs (p # map fst rows) of r0 # rest \<Rightarrow> [s, last r0] # map ends rest | [] \<Rightarrow> [])"
proof (induction rows arbitrary: cl s p d)
  case Nil
  show ?case by (simp add: close_last_def)
next
  case (Cons row rows)
  obtain t v where row: "row = (t, v)" by (cases row)
  obtain r0 rs where r0: "runs (t # map fst rows) = (t # r0) # rs" using runs_Cons by blast
  show ?case
  proof (cases "t - p > 300")
    case True
    obtain ss d' p' where h: "spo2_loop rows ((cl @ [[s, p]]) @ [[t]]) (set_spo2 t v d) (Some t) = Inr (ss, d', Some p')"
       "length (last ss) = 1" "ss \<noteq> []"
       "close_last ss p' = (cl @ [[s, p]]) @ (case runs (t # map fst rows) of r0 # rest \<Rightarrow> [t, last r0] # map ends rest | [] \<Rightarrow> [])"
      using Cons.IH [of "cl @ [[s, p]]" t "set_spo2 t v d" t] by blast
    have step: "spo2_loop (row # rows) (cl @ [[s]]) d (Some p)
        = spo2_loop rows ((cl @ [[s, p]]) @ [[t]]) (set_spo2 t v d) (Some t)"
      using True by (simp add: row close_last_def)
    have r: "runs (p # map fst (row # rows)) = [p] # (t # r0) # rs"
      using True r0 by (simp add: row)
    have "close_last ss p' = cl @ [s, last [p]] # map ends ((t # r0) # rs)"
      using h(4) r0 by (simp add: ends_def)
    then show ?thesis
      unfolding step r using h(1-3) by simp
  next
    case False
    obtain ss d' p' where h: "spo2_loop rows (cl @ [[s]]) (set_spo2 t v d) (Some t) = Inr (ss, d', Some p')"
       "length (last ss) = 1" "ss \<noteq> []"
       "close_last ss p' = cl @ (case runs (t # map fst rows) of r0 # rest \<Rightarrow> [s, last r0] # map ends rest | [] \<Rightarrow> [])"
      using Cons.IH [of cl s "set_spo2 t v d" t] by blast
    have step: "spo2_loop (row # rows) (cl @ [[s]]) d (Some p)
        = spo2_loop rows (cl @ [[s]]) (set_spo2 t v d) (Some t)"
      using False by (simp add: row)
    have r: "runs (p # map fst (row # rows)) = (p # t # r0) # rs"
      using False r0 by (simp add: row)
    have "close_last ss p' = cl @ [s, last (p # t # r0)] # map ends rs"
      using h(4) r0 by simp
    then show ?thesis
      unfolding step r using h(1-3) by simp
  qed
qed

text \<open>
  C3. When the reader yields at least one row, the segmenter returns, in input order, one
  session per run of the SpO2 timestamps, from the first to the last timestamp of the run.
  The runs are the timestamps in their order, no run is empty, two consecutive timestamps of
  one run are at most 5 minutes apart, and each run starts more than 5 minutes after the
  last timestamp of the run before it.
\<close>

theorem C3_segmenter:
  assumes "ts = map fst (concat (map read_csv csv_files))" "ts \<noteq> []"
  shows "(\<exists>d. segment_sessions csv_files = Inr (map ends (runs ts), d))
         \<and> concat (runs ts) = ts
         \<and> (\<forall>r \<in> set (runs ts). r \<noteq> [] \<and> within r)
         \<and> between (runs ts)"
proof -
  obtain row rows where rows: "concat (map read_csv csv_files) = row # rows"
    using assms by (cases "concat (map read_csv csv_files)") auto
  obtain t v where row: "row = (t, v)" by (cases row)
  obtain r0 rs where r0: "runs (t # map fst rows) = (t # r0) # rs" using runs_Cons by blast
  obtain ss d' p' where l: "spo2_loop rows ([] @ [[t]]) (set_spo2 t v []) (Some t) = Inr (ss, d', Some p')"
     "length (last ss) = 1" "ss \<noteq> []"
     "close_last ss p' = [] @ (case runs (t # map fst rows) of r0 # rest \<Rightarrow> [t, last r0] # map ends rest | [] \<Rightarrow> [])"
    using spo2_loop_runs [of rows "[]" t "set_spo2 t v []" t] by blast
  have "segment_sessions csv_files = Inr (close_last ss p', d')"
    using l(1-3) by (simp add: segment_sessions_def rows row)
  moreover have "close_last ss p' = map ends (runs ts)"
    using l(4) r0 assms(1) by (simp add: rows row ends_def)
  ultimately have "\<exists>d. segment_sessions csv_files = Inr (map ends (runs ts), d)" by simp
  then show ?thesis
    using runs_concat [of ts] runs_nonempty [of _ ts] runs_within [of _ ts] runs_between [of ts]
    by blast
qed

theorem C3_segmenter_witness:
  "(\<exists>d. segment_sessions [[(0, 95), (60, 100), (120, 60), (500, 70)]]
         = Inr ([[0, 60], [500, 500]], d))
   \<and> runs [0, 60, 500] = [[0, 60], [500]]"
  using C3_segmenter [of "[0, 60, 500]" "[[(0, 95), (60, 100), (120, 60), (500, 70)]]"]
  by (simp add: ends_def)

lemma bpm_loop_last:
  "snd (bpm_loop entries d l) = (if entries = [] then l else Some (fst (last entries)))"
  by (induction entries d l rule: bpm_loop.induct) auto

lemma filter_sessions_eq:
  "filter_sessions ss (Some l) acc = Inr fs \<Longrightarrow>
     fs = acc @ map (\<lambda>s. (s ! 0, s ! 1)) (filter (\<lambda>s. s ! 1 < l) ss)"
proof (induction ss arbitrary: acc)
  case Nil
  then show ?case by simp
next
  case (Cons s ss)
  then obtain a b rest where s: "s = a # b # rest"
    by (auto split: list.splits)
  show ?case
  proof (cases "b < l")
    case True
    then have "filter_sessions ss (Some l) (acc @ [(a, b)]) = Inr fs"
      using Cons.prems s by simp
    from Cons.IH [OF this] show ?thesis using True s by simp
  next
    case False
    then have "filter_sessions ss (Some l) acc = Inr fs"
      using Cons.prems s by simp
    from Cons.IH [OF this] show ?thesis using False s by simp
  qed
qed

lemma filter_sessions_None: "ss \<noteq> [] \<Longrightarrow> filter_sessions ss None acc \<noteq> Inr fs"
  by (cases ss) (auto split: list.splits)

lemma segment_sessions_nonempty: "segment_sessions csv_files = Inr (ss, d) \<Longrightarrow> ss \<noteq> []"
  by (auto simp add: segment_sessions_def close_last_def split: sum.splits option.splits if_splits)

lemma sorted_last_Max:
  fixes xs :: "int list"
  assumes "sorted xs" "xs \<noteq> []"
  shows "last xs = Max (set xs)"
proof -
  have "xs = butlast xs @ [last xs]" using assms(2) by simp
  then have "sorted (butlast xs @ [last xs])" using assms(1) by simp
  then have "\<forall>x\<in>set (butlast xs). x \<le> last xs" by (simp add: sorted_append)
  moreover have "set xs = insert (last xs) (set (butlast xs))"
    using assms(2) by (metis append_butlast_last_id list.simps(15) rotate1.simps(2) set_rotate1)
  ultimately show ?thesis by (simp add: Max_insert2)
qed

text \<open>
  C2, as the claim states it, fails when the heart-rate entries are not read in
  chronological order: \<open>last_bpm_timestamp\<close> is the timestamp of the entry read last. Here
  the session ends at 70, the greatest heart-rate timestamp is 100, and the session is
  dropped because the last entry read is at 50.
\<close>

theorem C2_last_not_max_counterexample:
  "align_spo2_data [[(0, 95), (70, 96)]] [[(100, 60), (50, 61)]]
     = Inr ([], [(0, (Some 95, None)), (70, (Some 96, None)), (100, (None, Some 60)),
                 (50, (None, Some 61))])
   \<and> 70 < Max (fst ` set (concat [[(100::int, 60::int), (50, 61)]]))"
  by (simp add: align_spo2_data_def segment_sessions_def close_last_def read_json_def
      set_spo2_def set_bpm_def lookup_def)

text \<open>
  C2, amended. When \<open>align_spo2_data\<close> returns, at least one heart-rate entry was read, and
  the sessions it returns are, in order, the sessions of the segmenter whose end is strictly
  less than the timestamp of the heart-rate entry read last; when the heart-rate entries
  are read in chronological order, that timestamp is the greatest heart-rate timestamp.
\<close>

theorem C2_retention:
  assumes "align_spo2_data csv_files json_files = Inr (filtered_sessions, d)"
  shows "\<exists>ss d0. segment_sessions csv_files = Inr (ss, d0) \<and> concat json_files \<noteq> []
     \<and> filtered_sessions
         = map (\<lambda>s. (s ! 0, s ! 1)) (filter (\<lambda>s. s ! 1 < fst (last (concat json_files))) ss)
     \<and> (sorted (map fst (concat json_files)) \<longrightarrow>
          fst (last (concat json_files)) = Max (fst ` set (concat json_files)))"
proof -
  obtain ss d0 where seg: "segment_sessions csv_files = Inr (ss, d0)"
    using assms by (auto simp add: align_spo2_data_def split: sum.splits)
  obtain d1 l where b: "bpm_loop (concat (map read_json json_files)) d0 None = (d1, l)"
    by (cases "bpm_loop (concat (map read_json json_files)) d0 None")
  have f: "filter_sessions ss l [] = Inr filtered_sessions"
    using assms seg b by (auto simp add: align_spo2_data_def split: sum.splits)
  have l: "l = (if concat json_files = [] then None else Some (fst (last (concat json_files))))"
    using bpm_loop_last [of "concat (map read_json json_files)" d0 None] b
    by (simp add: read_json_def [abs_def])
  have ne: "concat json_files \<noteq> []"
  proof
    assume "concat json_files = []"
    then have "l = None" using l by simp
    then show False
      using f filter_sessions_None [OF segment_sessions_nonempty [OF seg], of "[]" filtered_sessions]
      by simp
  qed
  have l': "l = Some (fst (last (concat json_files)))" using l ne by simp
  have "filtered_sessions = map (\<lambda>s. (s ! 0, s ! 1))
      (filter (\<lambda>s. s ! 1 < fst (last (concat json_files))) ss)"
    using filter_sessions_eq [of ss "fst (last (concat json_files))" "[]" filtered_sessions] f l'
    by simp
  moreover have "sorted (map fst (concat json_files)) \<longrightarrow>
      fst (last (concat json_files)) = Max (fst ` set (concat json_files))"
    using sorted_last_Max [of "map fst (concat json_files)"] ne by (simp add: last_map)
  ultimately show ?thesis using seg ne by blast
qed

theorem C2_retention_witness:
  "\<exists>ss d0. segment_sessions [[(0, 95), (60, 100), (120, 60), (500, 70), (900, 80)]] = Inr (ss, d0)
     \<and> [(0, 60), (500, 500)] = map (\<lambda>s. (s ! 0, s ! 1)) (filter (\<lambda>s. s ! 1 < 700) ss)"
proof -
  have "align_spo2_data [[(0, 95), (60, 100), (120, 60), (500, 70), (900, 80)]] [[(0, 60), (700, 61)]]
      = Inr ([(0, 60), (500, 500)],
             [(0, (Some 95, Some 60)), (60, (Some 99, None)), (500, (Some 70, None)),
              (900, (Some 80, None)), (700, (None, Some 61))])"
    by (simp add: align_spo2_data_def segment_sessions_def close_last_def read_json_def
        set_spo2_def set_bpm_def lookup_def)
  from C2_retention [OF this] show ?thesis by simp
qed

section \<open>The while loop of the chunker\<close>

lemma spaced4_snoc: "spaced4 (c @ [r]) = (spaced4 c \<and> (c \<noteq> [] \<longrightarrow> fst r = fst (last c) + 4))"
  by (induction c rule: spaced4.induct) auto

lemma while_emit_invariant:
  assumes "while_emit t e s b cs c = Inr (t', cs', c')"
    and "I t cs c"
    and "\<And>t cs c sv bv. I t cs c \<Longrightarrow> t < e \<Longrightarrow> s = Some sv \<Longrightarrow> b = Some bv \<Longrightarrow>
           4095 \<le> length c \<Longrightarrow> I (t + 4) (cs @ [c]) [(t, sv, bv)]"
    and "\<And>t cs c sv bv. I t cs c \<Longrightarrow> t < e \<Longrightarrow> s = Some sv \<Longrightarrow> b = Some bv \<Longrightarrow>
           length c < 4095 \<Longrightarrow> I (t + 4) cs (c @ [(t, sv, bv)])"
  shows "I t' cs' c' \<and> e \<le> t'"
  using assms
proof (induction t e s b cs c rule: while_emit.induct)
  case (1 t e s b cs c)
  note seal = "1.prems"(3) and grow = "1.prems"(4)
  show ?case
  proof (cases "t < e")
    case False
    with "1.prems" show ?thesis by (simp add: while_emit.simps [of t e])
  next
    case True
    then obtain sv bv where sb: "s = Some sv" "b = Some bv"
      using "1.prems"(1) by (auto simp add: while_emit.simps [of t e] split: option.splits)
    show ?thesis
    proof (cases "length c \<ge> 4095")
      case full: True
      then have r: "while_emit (t + 4) e s b (cs @ [c]) [(t, sv, bv)] = Inr (t', cs', c')"
        using "1.prems"(1) True sb by (simp add: while_emit.simps [of t e])
      have i: "I (t + 4) (cs @ [c]) [(t, sv, bv)]"
        using seal [OF "1.prems"(2) True sb full] .
      show ?thesis
        using "1.IH"(1) [OF True _ sb(1) sb(2) full r i seal grow] sb by simp
    next
      case notfull: False
      then have r: "while_emit (t + 4) e s b cs (c @ [(t, sv, bv)]) = Inr (t', cs', c')"
        using "1.prems"(1) True sb by (simp add: while_emit.simps [of t e])
      have i: "I (t + 4) cs (c @ [(t, sv, bv)])"
        using grow [OF "1.prems"(2) True sb] notfull by simp
      show ?thesis
        using "1.IH"(2) [OF True _ sb(1) sb(2) notfull r i seal grow] sb by simp
    qed
  qed
qed

lemma good_snoc:
  "good Q c \<Longrightarrow> length c < 4095 \<Longrightarrow> c \<noteq> [] \<longrightarrow> fst r = fst (last c) + 4 \<Longrightarrow> Q r \<Longrightarrow> good Q (c @ [r])"
  by (simp add: good_def spaced4_snoc)

lemma good_single: "Q r \<Longrightarrow> good Q [r]"
  by (simp add: good_def)

lemma while_emit_new:
  assumes "while_emit t e s b cs c = Inr (t', cs', c')"
    and "good Q c" "c \<noteq> [] \<longrightarrow> t = fst (last c) + 4"
    and "\<And>u sv bv. t \<le> u \<Longrightarrow> u < e \<Longrightarrow> Q (u, sv, bv)"
  shows "(\<exists>new. cs' = cs @ new \<and> (\<forall>x \<in> set new. length x = 4095 \<and> good Q x))
         \<and> good Q c' \<and> (c' \<noteq> [] \<longrightarrow> t' = fst (last c') + 4) \<and> e \<le> t' \<and> t \<le> t'"
proof -
  let ?I = "\<lambda>u xs x. t \<le> u \<and> (\<exists>new. xs = cs @ new \<and> (\<forall>x \<in> set new. length x = 4095 \<and> good Q x))
      \<and> good Q x \<and> (x \<noteq> [] \<longrightarrow> u = fst (last x) + 4)"
  have "?I t' cs' c' \<and> e \<le> t'"
  proof (rule while_emit_invariant [where I = ?I, OF assms(1)])
    show "?I t cs c" using assms(2,3) by simp
  next
    fix u xs x sv bv
    assume i: "?I u xs x" and u: "u < e" and full: "4095 \<le> length x"
    have "length x = 4095" using i full by (simp add: good_def)
    moreover have "good Q [(u, sv, bv)]" using assms(4) i u by (simp add: good_single)
    ultimately show "?I (u + 4) (xs @ [x]) [(u, sv, bv)]" using i by auto
  next
    fix u xs x sv bv
    assume i: "?I u xs x" and u: "u < e" and notfull: "length x < 4095"
    have "good Q (x @ [(u, sv, bv)])"
      using i notfull assms(4) [of u sv bv] u by (intro good_snoc) auto
    then show "?I (u + 4) xs (x @ [(u, sv, bv)])" using i by auto
  qed
  then show ?thesis by simp
qed

lemma while_emit_total:
  "\<exists>t' cs' c'. while_emit t e (Some sv) (Some bv) cs c = Inr (t', cs', c')"
proof (induction t e "Some sv" "Some bv" cs c rule: while_emit.induct)
  case (1 t e cs c)
  then show ?case
    by (cases "t < e"; cases "4095 \<le> length c") (simp_all add: while_emit.simps [of t e])
qed



section \<open>The walk of a session\<close>

lemma walk_skip:
  "start_timestamp st x < fst session \<or> snd session < start_timestamp st x \<Longrightarrow>
     walk session (x # y # rest) st
       = walk session (y # rest)
           (st\<lparr>w_spo2 := carry (fst (snd x)) (w_spo2 st), w_bpm := carry (snd (snd x)) (w_bpm st)\<rparr>)"
  by (simp add: Let_def)

lemma walk_emit:
  "fst session \<le> start_timestamp st x \<Longrightarrow> start_timestamp st x \<le> snd session \<Longrightarrow>
     walk session (x # y # rest) st
       = (case while_emit (start_timestamp st x) (fst y) (carry (fst (snd x)) (w_spo2 st))
                 (carry (snd (snd x)) (w_bpm st)) (w_chunks st) (w_chunk st) of
            Inl e \<Rightarrow> Inl e
          | Inr (t', cs', c') \<Rightarrow>
              walk session (y # rest)
                \<lparr>w_chunks = cs', w_chunk = c', w_spo2 = carry (fst (snd x)) (w_spo2 st),
                 w_bpm = carry (snd (snd x)) (w_bpm st), w_last_timestamp = Some t'\<rparr>)"
  by (simp add: Let_def)

lemma key_gap_tail:
  fixes x :: "timestamp \<times> fields"
  assumes "sorted (map fst (x # y # zs))"
    and "\<forall>k \<in> K. k \<le> fst x \<or> k \<in> fst ` set (x # y # zs)"
  shows "\<forall>k \<in> K. k \<le> fst y \<or> k \<in> fst ` set (y # zs)"
proof
  fix k assume k: "k \<in> K"
  have xy: "fst x \<le> fst y" using assms(1) by simp
  from assms(2) k have "k \<le> fst x \<or> k = fst x \<or> k \<in> fst ` set (y # zs)" by auto
  then show "k \<le> fst y \<or> k \<in> fst ` set (y # zs)" using xy by linarith
qed

lemma key_after:
  fixes x :: "timestamp \<times> fields"
  assumes "sorted (map fst (x # y # zs))"
    and "\<forall>k \<in> K. k \<le> fst x \<or> k \<in> fst ` set (x # y # zs)"
    and "k \<in> K" "fst x < k"
  shows "fst y \<le> k"
proof -
  have "k \<le> fst x \<or> k = fst x \<or> k \<in> fst ` set (y # zs)" using assms(2,3) by auto
  then have "k \<in> fst ` set (y # zs)" using assms(4) by linarith
  then obtain z where z: "z \<in> set (y # zs)" "k = fst z" by blast
  have "\<forall>z \<in> set zs. fst y \<le> fst z" using assms(1) by simp
  then show ?thesis using z by auto
qed

lemma walk_new:
  assumes "walk session xs st = Inr st'"
    and "sorted (map fst xs)"
    and "\<forall>k \<in> K. k \<le> fst (hd xs) \<or> k \<in> fst ` set xs"
    and "fst ` set xs \<subseteq> K"
    and "good (in_window session K) (w_chunk st)"
    and "stamp_ok session (fst (hd xs)) st"
  shows "(\<exists>new. w_chunks st' = w_chunks st @ new
            \<and> (\<forall>c \<in> set new. length c = 4095 \<and> good (in_window session K) c))
         \<and> good (in_window session K) (w_chunk st')"
  using assms
proof (induction xs arbitrary: st rule: induct_list012)
  case 1
  then show ?case by simp
next
  case (2 x)
  then show ?case by simp
next
  case (3 x y zs)
  let ?Q = "in_window session K"
  let ?ts = "start_timestamp st x"
  let ?sp = "carry (fst (snd x)) (w_spo2 st)"
  let ?bp = "carry (snd (snd x)) (w_bpm st)"
  have srt: "sorted (map fst (y # zs))" using "3.prems"(2) by simp
  have gap: "\<forall>k \<in> K. k \<le> fst (hd (y # zs)) \<or> k \<in> fst ` set (y # zs)"
    using key_gap_tail [OF "3.prems"(2)] "3.prems"(3) by simp
  have sub: "fst ` set (y # zs) \<subseteq> K" using "3.prems"(4) by auto
  have ok: "stamp_ok session (fst x) st" using "3.prems"(6) by simp
  show ?case
  proof (cases "?ts < fst session \<or> snd session < ?ts")
    case True
    let ?st2 = "st\<lparr>w_spo2 := ?sp, w_bpm := ?bp\<rparr>"
    have w: "walk session (y # zs) ?st2 = Inr st'"
      using "3.prems"(1) walk_skip [OF True] by simp
    have ok2: "stamp_ok session (fst (hd (y # zs))) ?st2"
      using ok True by (auto simp add: stamp_ok_def start_timestamp_def split: option.splits)
    have g2: "good ?Q (w_chunk ?st2)" using "3.prems"(5) by simp
    show ?thesis
      using "3.IH"(2) [OF w srt gap sub g2 ok2] by simp
  next
    case False
    then have in1: "fst session \<le> ?ts" and in2: "?ts \<le> snd session" by auto
    obtain t' cs' c' where
      we: "while_emit ?ts (fst y) ?sp ?bp (w_chunks st) (w_chunk st) = Inr (t', cs', c')"
      using "3.prems"(1) walk_emit [OF in1 in2, of y zs]
      by (cases "while_emit ?ts (fst y) ?sp ?bp (w_chunks st) (w_chunk st)") auto
    let ?st3 = "\<lparr>w_chunks = cs', w_chunk = c', w_spo2 = ?sp, w_bpm = ?bp,
                 w_last_timestamp = Some t'\<rparr>"
    have w: "walk session (y # zs) ?st3 = Inr st'"
      using "3.prems"(1) walk_emit [OF in1 in2, of y zs] we by simp
    have x_le: "fst x \<le> ?ts"
      using ok in2 by (auto simp add: stamp_ok_def start_timestamp_def split: option.splits)
    have cont: "w_chunk st \<noteq> [] \<longrightarrow> ?ts = fst (last (w_chunk st)) + 4"
      using ok by (auto simp add: stamp_ok_def start_timestamp_def split: option.splits)
    have q: "\<And>u sv bv. ?ts \<le> u \<Longrightarrow> u < fst y \<Longrightarrow> ?Q (u, sv, bv)"
    proof -
      fix u sv bv
      assume u: "?ts \<le> u" "u < fst y"
      have "\<forall>k \<in> K. snd session < k \<longrightarrow> u < k"
      proof (intro ballI impI)
        fix k assume k: "k \<in> K" "snd session < k"
        then have "fst x < k" using x_le in2 by simp
        from key_after [OF "3.prems"(2) _ k(1) this] "3.prems"(3) u show "u < k" by simp
      qed
      moreover have "fst y \<in> K" using "3.prems"(4) by simp
      ultimately show "?Q (u, sv, bv)"
        using in1 u by (auto simp add: in_window_def)
    qed
    from while_emit_new [OF we "3.prems"(5) cont q]
    obtain new1 where n1: "cs' = w_chunks st @ new1"
        "\<forall>c \<in> set new1. length c = 4095 \<and> good ?Q c"
      and g3: "good ?Q c'" and c3: "c' \<noteq> [] \<longrightarrow> t' = fst (last c') + 4"
      and t3: "fst y \<le> t'" "?ts \<le> t'"
      by auto
    have ok3: "stamp_ok session (fst (hd (y # zs))) ?st3"
      using c3 t3 in1 by (simp add: stamp_ok_def)
    have g3': "good ?Q (w_chunk ?st3)" using g3 by simp
    from "3.IH"(2) [OF w srt gap sub g3' ok3]
    obtain new2 where n2: "w_chunks st' = cs' @ new2"
        "\<forall>c \<in> set new2. length c = 4095 \<and> good ?Q c"
      and g: "good ?Q (w_chunk st')"
      by auto
    have "w_chunks st' = w_chunks st @ (new1 @ new2)" using n1 n2 by simp
    moreover have "\<forall>c \<in> set (new1 @ new2). length c = 4095 \<and> good ?Q c"
      using n1 n2 by auto
    ultimately show ?thesis using g by blast
  qed
qed

lemma walk_session_new:
  assumes "walk_session sd session st = Inr st'" "w_chunk st = []" "sorted (map fst sd)"
  shows "w_chunk st' = []
     \<and> (\<exists>full rest. w_chunks st' = w_chunks st @ full @ rest
           \<and> (\<forall>c \<in> set full. length c = 4095 \<and> good (in_window session (fst ` set sd)) c)
           \<and> length rest \<le> 1
           \<and> (\<forall>c \<in> set rest. c \<noteq> [] \<and> good (in_window session (fst ` set sd)) c))"
proof -
  let ?Q = "in_window session (fst ` set sd)"
  let ?st0 = "st\<lparr>w_last_timestamp := None\<rparr>"
  obtain st1 where w: "walk session sd ?st0 = Inr st1"
    using assms(1) by (cases "walk session sd ?st0") (simp_all add: walk_session_def)
  have g0: "good ?Q (w_chunk ?st0)" using assms(2) by (simp add: good_def)
  have ok0: "stamp_ok session (fst (hd sd)) ?st0" using assms(2) by (simp add: stamp_ok_def)
  have "(\<exists>new. w_chunks st1 = w_chunks ?st0 @ new \<and> (\<forall>c \<in> set new. length c = 4095 \<and> good ?Q c))
      \<and> good ?Q (w_chunk st1)"
    by (rule walk_new [OF w assms(3) _ _ g0 ok0]) auto
  then obtain full where f: "w_chunks st1 = w_chunks st @ full"
      "\<forall>c \<in> set full. length c = 4095 \<and> good ?Q c" and g1: "good ?Q (w_chunk st1)"
    by auto
  show ?thesis
  proof (cases "w_chunk st1 = []")
    case True
    then have "st' = st1" using assms(1) w by (simp add: walk_session_def)
    then have "w_chunk st' = []" "w_chunks st' = w_chunks st @ full @ []"
      using True f by simp_all
    then show ?thesis using f(2) by (metis empty_iff length_0_conv list.set(1) zero_le)
  next
    case False
    then have "st' = st1\<lparr>w_chunks := w_chunks st1 @ [w_chunk st1], w_chunk := []\<rparr>"
      using assms(1) w by (simp add: walk_session_def)
    then have a: "w_chunk st' = []" "w_chunks st' = w_chunks st @ full @ [w_chunk st1]"
      using f by simp_all
    have b: "length [w_chunk st1] \<le> 1" "\<forall>c \<in> set [w_chunk st1]. c \<noteq> [] \<and> good ?Q c"
      using False g1 by simp_all
    show ?thesis using a b f(2) by blast
  qed
qed

lemma sessions_loop_new:
  assumes "sessions_loop sd sessions st = Inr st'" "w_chunk st = []" "sorted (map fst sd)"
  shows "w_chunk st' = []
     \<and> (\<exists>new. w_chunks st' = w_chunks st @ new
           \<and> (\<forall>c \<in> set new. c \<noteq> [] \<and> (\<exists>s \<in> set sessions. good (in_window s (fst ` set sd)) c)))"
  using assms(1,2)
proof (induction sessions arbitrary: st)
  case Nil
  then show ?case by simp
next
  case (Cons s sessions)
  obtain st1 where w: "walk_session sd s st = Inr st1"
    using Cons.prems(1) by (cases "walk_session sd s st") simp_all
  then have l: "sessions_loop sd sessions st1 = Inr st'" using Cons.prems(1) by simp
  from walk_session_new [OF w Cons.prems(2) assms(3)]
  obtain full rest where e1: "w_chunk st1 = []" "w_chunks st1 = w_chunks st @ full @ rest"
      "\<forall>c \<in> set full. length c = 4095 \<and> good (in_window s (fst ` set sd)) c"
      "\<forall>c \<in> set rest. c \<noteq> [] \<and> good (in_window s (fst ` set sd)) c"
    by blast
  from Cons.IH [OF l e1(1)]
  obtain new where e2: "w_chunk st' = []" "w_chunks st' = w_chunks st1 @ new"
      "\<forall>c \<in> set new. c \<noteq> [] \<and> (\<exists>s \<in> set sessions. good (in_window s (fst ` set sd)) c)"
    by blast
  have "w_chunks st' = w_chunks st @ (full @ rest @ new)" using e1(2) e2(2) by simp
  moreover have "\<forall>c \<in> set (full @ rest @ new).
      c \<noteq> [] \<and> (\<exists>s' \<in> set (s # sessions). good (in_window s' (fst ` set sd)) c)"
    using e1(3,4) e2(3) by auto
  ultimately show ?case using e2(1) by blast
qed

lemma divide_chunks:
  assumes "divide_data_to_viatom_chunks sessions d = Inr cs"
  shows "\<forall>c \<in> set cs. c \<noteq> [] \<and> (\<exists>s \<in> set sessions. good (in_window s (fst ` set d)) c)"
proof -
  obtain st where l: "sessions_loop (sorted_items d) sessions init_state = Inr st"
    using assms by (cases "sessions_loop (sorted_items d) sessions init_state")
      (simp_all add: divide_data_to_viatom_chunks_def)
  have s: "sorted (map fst (sorted_items d))" "set (sorted_items d) = set d"
    by (simp_all add: sorted_items_def)
  have i: "w_chunk init_state = []" "w_chunks init_state = []" by (simp_all add: init_state_def)
  from sessions_loop_new [OF l i(1) s(1)] i(2) s(2)
  have e: "w_chunk st = []"
    "\<forall>c \<in> set (w_chunks st). c \<noteq> [] \<and> (\<exists>s \<in> set sessions. good (in_window s (fst ` set d)) c)"
    by auto
  have "cs = w_chunks st" using assms l e(1) by (simp add: divide_data_to_viatom_chunks_def)
  then show ?thesis using e(2) by simp
qed

lemma walk_short: "length sd \<le> 1 \<Longrightarrow> walk session sd st = Inr st"
  by (cases sd) auto

lemma sessions_loop_short:
  "length sd \<le> 1 \<Longrightarrow> w_chunk st = [] \<Longrightarrow>
     \<exists>st'. sessions_loop sd sessions st = Inr st' \<and> w_chunks st' = w_chunks st \<and> w_chunk st' = []"
proof (induction sessions arbitrary: st)
  case Nil
  then show ?case by simp
next
  case (Cons s sessions)
  have "walk_session sd s st = Inr (st\<lparr>w_last_timestamp := None\<rparr>)"
    using Cons.prems by (simp add: walk_session_def walk_short)
  then show ?case
    using Cons.IH [of "st\<lparr>w_last_timestamp := None\<rparr>"] Cons.prems by simp
qed

lemma concat_length_le:
  "\<forall>c \<in> set xs. length c \<le> n \<Longrightarrow> length (concat xs) \<le> n * length xs"
  by (induction xs) auto

lemma spaced4_nth:
  "spaced4 c \<Longrightarrow> Suc i < length c \<Longrightarrow> fst (c ! Suc i) = fst (c ! i) + 4"
proof (induction c arbitrary: i rule: spaced4.induct)
  case (1 r q rs)
  then show ?case by (cases i) auto
qed auto

section \<open>The records of a session\<close>

lemma grid_step: "t < e \<Longrightarrow> grid t e = t # grid (t + 4) e"
  by (simp add: grid.simps [of t e])

lemma grid_done: "e \<le> t \<Longrightarrow> grid t e = []"
  by (simp add: grid.simps [of t e])

lemma grid_length: "length (grid t e) = (if t < e then nat ((e - t + 3) div 4) else 0)"
proof (induction t e rule: grid.induct)
  case (1 t e)
  show ?case
  proof (cases "t < e")
    case True
    have "Suc (if t + 4 < e then nat ((e - (t + 4) + 3) div 4) else 0) = nat ((e - t + 3) div 4)"
      using True by auto
    then show ?thesis using "1.IH" [OF True] True by (simp add: grid_step)
  next
    case False
    then show ?thesis by (simp add: grid_done)
  qed
qed

lemma emitted_Cons: "emitted (Some s) (Some b) (u # us) = (u, s, b) # emitted (Some s) (Some b) us"
  by (simp add: emitted_def)

lemma emitted_Nil: "emitted sp bp [] = []"
  by (simp add: emitted_def split: option.splits)

lemma while_emit_concat:
  assumes "while_emit t e sp bp cs c = Inr (t', cs', c')"
  shows "concat cs' @ c' = concat cs @ c @ emitted sp bp (grid t e)
         \<and> t' = t + 4 * int (length (grid t e))"
proof -
  let ?I = "\<lambda>u xs x. concat xs @ x @ emitted sp bp (grid u e) = concat cs @ c @ emitted sp bp (grid t e)
      \<and> u + 4 * int (length (grid u e)) = t + 4 * int (length (grid t e))"
  have "?I t' cs' c' \<and> e \<le> t'"
  proof (rule while_emit_invariant [where I = ?I, OF assms])
    show "?I t cs c" by simp
  next
    fix u xs x sv bv
    assume "?I u xs x" "u < e" "sp = Some sv" "bp = Some bv"
    then show "?I (u + 4) (xs @ [x]) [(u, sv, bv)]"
      by (simp add: grid_step emitted_Cons)
  next
    fix u xs x sv bv
    assume "?I u xs x" "u < e" "sp = Some sv" "bp = Some bv"
    then show "?I (u + 4) xs (x @ [(u, sv, bv)])"
      by (simp add: grid_step emitted_Cons)
  qed
  then have i: "concat cs' @ c' @ emitted sp bp (grid t' e) = concat cs @ c @ emitted sp bp (grid t e)"
      "t' + 4 * int (length (grid t' e)) = t + 4 * int (length (grid t e))" and le: "e \<le> t'"
    by simp_all
  have g: "grid t' e = []" using grid_done [OF le] .
  show ?thesis using i by (simp add: g emitted_Nil)
qed

lemma carried_step: "carried f (x # y # zs) v = carried f (y # zs) (carry (f (snd x)) v)"
  by (simp add: carried_def)

lemma carried_short: "length xs \<le> 1 \<Longrightarrow> carried f xs v = v"
  by (cases xs) (auto simp add: carried_def)

lemma walk_concat:
  assumes "walk session xs st = Inr st'"
  shows "concat (w_chunks st') @ w_chunk st'
           = concat (w_chunks st) @ w_chunk st
             @ resample session xs (w_last_timestamp st) (w_spo2 st) (w_bpm st)
         \<and> w_spo2 st' = carried fst xs (w_spo2 st) \<and> w_bpm st' = carried snd xs (w_bpm st)"
  using assms
proof (induction xs arbitrary: st rule: induct_list012)
  case 1
  then show ?case by (simp add: carried_short)
next
  case (2 x)
  then show ?case by (simp add: carried_short)
next
  case (3 x y zs)
  let ?ts = "start_timestamp st x"
  let ?sp = "carry (fst (snd x)) (w_spo2 st)"
  let ?bp = "carry (snd (snd x)) (w_bpm st)"
  have ts: "?ts = (case w_last_timestamp st of None \<Rightarrow> fst x | Some l \<Rightarrow> l)"
    by (simp add: start_timestamp_def)
  show ?case
  proof (cases "?ts < fst session \<or> snd session < ?ts")
    case True
    let ?st2 = "st\<lparr>w_spo2 := ?sp, w_bpm := ?bp\<rparr>"
    have w: "walk session (y # zs) ?st2 = Inr st'"
      using "3.prems" walk_skip [OF True] by simp
    have r: "resample session (x # y # zs) (w_last_timestamp st) (w_spo2 st) (w_bpm st)
        = resample session (y # zs) (w_last_timestamp st) ?sp ?bp"
      using True by (simp add: Let_def ts [symmetric])
    show ?thesis
      unfolding r carried_step using "3.IH"(2) [OF w] by simp
  next
    case False
    then have in1: "fst session \<le> ?ts" and in2: "?ts \<le> snd session" by auto
    obtain t' cs' c' where
      we: "while_emit ?ts (fst y) ?sp ?bp (w_chunks st) (w_chunk st) = Inr (t', cs', c')"
      using "3.prems" walk_emit [OF in1 in2, of y zs]
      by (cases "while_emit ?ts (fst y) ?sp ?bp (w_chunks st) (w_chunk st)") auto
    let ?st3 = "\<lparr>w_chunks = cs', w_chunk = c', w_spo2 = ?sp, w_bpm = ?bp,
                 w_last_timestamp = Some t'\<rparr>"
    have w: "walk session (y # zs) ?st3 = Inr st'"
      using "3.prems" walk_emit [OF in1 in2, of y zs] we by simp
    from while_emit_concat [OF we]
    have c: "concat cs' @ c' = concat (w_chunks st) @ w_chunk st @ emitted ?sp ?bp (grid ?ts (fst y))"
      and t: "t' = ?ts + 4 * int (length (grid ?ts (fst y)))"
      by simp_all
    have r: "resample session (x # y # zs) (w_last_timestamp st) (w_spo2 st) (w_bpm st)
        = emitted ?sp ?bp (grid ?ts (fst y)) @ resample session (y # zs) (Some t') ?sp ?bp"
      using False t by (simp add: Let_def ts [symmetric])
    have "concat (w_chunks st') @ w_chunk st'
        = (concat cs' @ c') @ resample session (y # zs) (Some t') ?sp ?bp"
      using "3.IH"(2) [OF w] by simp
    then have "concat (w_chunks st') @ w_chunk st'
        = concat (w_chunks st) @ w_chunk st
          @ resample session (x # y # zs) (w_last_timestamp st) (w_spo2 st) (w_bpm st)"
      by (simp only: c r append_assoc)
    moreover have "w_spo2 st' = carried fst (y # zs) ?sp" "w_bpm st' = carried snd (y # zs) ?bp"
      using "3.IH"(2) [OF w] by simp_all
    ultimately show ?thesis
      unfolding carried_step by blast
  qed
qed

lemma walk_session_parts:
  assumes "walk_session sd s st = Inr st'" "w_chunk st = []" "sorted (map fst sd)"
  shows "w_chunk st' = [] \<and> w_spo2 st' = carried fst sd (w_spo2 st)
     \<and> w_bpm st' = carried snd sd (w_bpm st)
     \<and> (\<exists>new. w_chunks st' = w_chunks st @ new
           \<and> concat new = resample s sd None (w_spo2 st) (w_bpm st)
           \<and> session_part s (fst ` set sd) new)"
proof -
  let ?st0 = "st\<lparr>w_last_timestamp := None\<rparr>"
  obtain st1 where w: "walk s sd ?st0 = Inr st1"
    using assms(1) by (cases "walk s sd ?st0") (simp_all add: walk_session_def)
  from walk_concat [OF w] assms(2)
  have c1: "concat (w_chunks st1) @ w_chunk st1
      = concat (w_chunks st) @ resample s sd None (w_spo2 st) (w_bpm st)"
    and v1: "w_spo2 st1 = carried fst sd (w_spo2 st)" "w_bpm st1 = carried snd sd (w_bpm st)"
    by simp_all
  have st': "st' = (if w_chunk st1 \<noteq> []
      then st1\<lparr>w_chunks := w_chunks st1 @ [w_chunk st1], w_chunk := []\<rparr> else st1)"
    using assms(1) w by (auto simp add: walk_session_def split: if_splits)
  have c': "concat (w_chunks st') = concat (w_chunks st1) @ w_chunk st1"
    and v': "w_spo2 st' = w_spo2 st1" "w_bpm st' = w_bpm st1"
    by (simp_all add: st')
  from walk_session_new [OF assms]
  obtain full rest where n: "w_chunk st' = []" "w_chunks st' = w_chunks st @ full @ rest"
      "\<forall>c \<in> set full. length c = 4095 \<and> good (in_window s (fst ` set sd)) c"
      "length rest \<le> 1"
      "\<forall>c \<in> set rest. c \<noteq> [] \<and> good (in_window s (fst ` set sd)) c"
    by blast
  have "concat (w_chunks st) @ concat (full @ rest)
      = concat (w_chunks st) @ resample s sd None (w_spo2 st) (w_bpm st)"
    using c' c1 n(2) by simp
  then have r: "concat (full @ rest) = resample s sd None (w_spo2 st) (w_bpm st)"
    by simp
  have p: "session_part s (fst ` set sd) (full @ rest)"
    unfolding session_part_def using n(3-5) by blast
  show ?thesis
    using n(1,2) v' v1 r p by auto
qed

lemma sessions_loop_parts:
  assumes "sessions_loop sd sessions st = Inr st'" "w_chunk st = []" "sorted (map fst sd)"
  shows "w_chunk st' = []
     \<and> (\<exists>css. w_chunks st' = w_chunks st @ concat css
           \<and> map concat css = resample_sessions sd sessions (w_spo2 st) (w_bpm st)
           \<and> list_all2 (\<lambda>s new. session_part s (fst ` set sd) new) sessions css)"
  using assms(1,2)
proof (induction sessions arbitrary: st)
  case Nil
  then show ?case by simp
next
  case (Cons s sessions)
  obtain st1 where w: "walk_session sd s st = Inr st1"
    using Cons.prems(1) by (cases "walk_session sd s st") simp_all
  then have l: "sessions_loop sd sessions st1 = Inr st'" using Cons.prems(1) by simp
  from walk_session_parts [OF w Cons.prems(2) assms(3)]
  obtain new where e1: "w_chunk st1 = []" "w_spo2 st1 = carried fst sd (w_spo2 st)"
      "w_bpm st1 = carried snd sd (w_bpm st)" "w_chunks st1 = w_chunks st @ new"
      "concat new = resample s sd None (w_spo2 st) (w_bpm st)"
      "session_part s (fst ` set sd) new"
    by blast
  from Cons.IH [OF l e1(1)]
  obtain css where e2: "w_chunk st' = []" "w_chunks st' = w_chunks st1 @ concat css"
      "map concat css = resample_sessions sd sessions (w_spo2 st1) (w_bpm st1)"
      "list_all2 (\<lambda>s new. session_part s (fst ` set sd) new) sessions css"
    by blast
  have "w_chunks st' = w_chunks st @ concat (new # css)" using e1(4) e2(2) by simp
  moreover have "map concat (new # css)
      = resample_sessions sd (s # sessions) (w_spo2 st) (w_bpm st)"
    using e1(2,3,5) e2(3) by simp
  moreover have "list_all2 (\<lambda>s new. session_part s (fst ` set sd) new) (s # sessions) (new # css)"
    using e1(6) e2(4) by simp
  ultimately show ?case using e2(1) by blast
qed

lemma divide_parts:
  assumes "divide_data_to_viatom_chunks sessions d = Inr cs"
  shows "\<exists>css. cs = concat css
     \<and> map concat css = resample_sessions (sorted_items d) sessions None None
     \<and> list_all2 (\<lambda>s new. session_part s (fst ` set d) new) sessions css"
proof -
  obtain st where l: "sessions_loop (sorted_items d) sessions init_state = Inr st"
    using assms by (cases "sessions_loop (sorted_items d) sessions init_state")
      (simp_all add: divide_data_to_viatom_chunks_def)
  have s: "sorted (map fst (sorted_items d))" "set (sorted_items d) = set d"
    by (simp_all add: sorted_items_def)
  have i: "w_chunk init_state = []" "w_chunks init_state = []" "w_spo2 init_state = None"
      "w_bpm init_state = None"
    by (simp_all add: init_state_def)
  from sessions_loop_parts [OF l i(1) s(1)]
  obtain css where e: "w_chunk st = []" "w_chunks st = concat css"
    "map concat css = resample_sessions (sorted_items d) sessions None None"
    "list_all2 (\<lambda>s new. session_part s (fst ` set d) new) sessions css"
    unfolding i s(2) by auto
  have "cs = w_chunks st" using assms l e(1) by (simp add: divide_data_to_viatom_chunks_def)
  then show ?thesis using e(2-4) by blast
qed

lemma session_part_cap:
  assumes "session_part s K new"
  shows "(\<forall>c \<in> set new. length c \<le> 4095) \<and> (4095 < length (concat new) \<longrightarrow> 2 \<le> length new)"
proof -
  have le: "\<forall>c \<in> set new. length c \<le> 4095"
    using assms by (auto simp add: session_part_def good_def)
  have "length (concat new) \<le> 4095 * length new"
    using concat_length_le [OF le] .
  then have "4095 < length (concat new) \<longrightarrow> 2 \<le> length new" by arith
  with le show ?thesis by blast
qed

lemma session_part_window:
  assumes "session_part s K new"
  shows "\<forall>c \<in> set new. \<forall>r \<in> set c. fst s \<le> fst r \<and> (\<forall>k \<in> K. snd s < k \<longrightarrow> fst r < k)"
proof (intro ballI)
  fix c r assume c: "c \<in> set new" and r: "r \<in> set c"
  from assms c have "good (in_window s K) c"
    by (auto simp add: session_part_def)
  with r have "in_window s K r" by (simp add: good_def)
  then show "fst s \<le> fst r \<and> (\<forall>k \<in> K. snd s < k \<longrightarrow> fst r < k)"
    by (simp add: in_window_def)
qed

section \<open>The chunks\<close>

text \<open>
  C1. Every chunk that \<open>divide_data_to_viatom_chunks\<close> returns has at most 4095 records.
  The chunks it returns are, session after session, the records that the resampling of the
  session yields, none dropped and in the same order, cut into chunks; a session whose
  resampling yields more than 4095 records has two or more chunks. The same holds of the walk
  of one session over the sorted index, started as the loop starts it with an empty growing
  chunk: it ends with an empty growing chunk, and the chunks it appends hold exactly the
  records of the session. And \<open>write_to_viatom_file\<close> raises, before it opens a file, on a
  chunk of more than 4095 records.
\<close>

theorem C1_chunk_cap:
  "(divide_data_to_viatom_chunks sessions d = Inr cs \<longrightarrow>
      (\<forall>c \<in> set cs. length c \<le> 4095)
      \<and> (\<exists>css. cs = concat css
            \<and> map concat css = resample_sessions (sorted_items d) sessions None None
            \<and> list_all2 (\<lambda>records new. 4095 < length records \<longrightarrow> 2 \<le> length new)
                 (resample_sessions (sorted_items d) sessions None None) css))
   \<and> (w_chunk st = [] \<and> sorted (map fst sd) \<and> walk_session sd session st = Inr st' \<longrightarrow>
        w_chunk st' = []
        \<and> (\<exists>new. w_chunks st' = w_chunks st @ new
              \<and> concat new = resample session sd None (w_spo2 st) (w_bpm st)
              \<and> (\<forall>c \<in> set new. length c \<le> 4095)
              \<and> (4095 < length (resample session sd None (w_spo2 st) (w_bpm st)) \<longrightarrow>
                   2 \<le> length new)))
   \<and> (4095 < length rs \<longrightarrow>
        fst (write_to_viatom_file cal rs) = None
        \<and> written (snd (write_to_viatom_file cal rs)) = []
        \<and> raised (snd (write_to_viatom_file cal rs))
            = Some (ChunkTooLong (fst (hd rs)) (fst (last rs)) (length rs)))"
proof (intro conjI impI)
  assume a: "divide_data_to_viatom_chunks sessions d = Inr cs"
  from divide_chunks [OF a] show "\<forall>c \<in> set cs. length c \<le> 4095"
    by (auto simp add: good_def)
  from divide_parts [OF a]
  obtain css where p: "cs = concat css"
      "map concat css = resample_sessions (sorted_items d) sessions None None"
      "list_all2 (\<lambda>s new. session_part s (fst ` set d) new) sessions css"
    by blast
  have "\<forall>new \<in> set css. 4095 < length (concat new) \<longrightarrow> 2 \<le> length new"
  proof
    fix new assume "new \<in> set css"
    then obtain i where i: "i < length css" "new = css ! i"
      by (auto simp add: in_set_conv_nth)
    then have "session_part (sessions ! i) (fst ` set d) new"
      using p(3) by (simp add: list_all2_conv_all_nth)
    from session_part_cap [OF this]
    show "4095 < length (concat new) \<longrightarrow> 2 \<le> length new" by simp
  qed
  then have "list_all2 (\<lambda>records new. 4095 < length records \<longrightarrow> 2 \<le> length new)
      (map concat css) css"
    by (simp add: list_all2_map1 list_all2_same)
  with p(1,2)
  show "\<exists>css. cs = concat css
      \<and> map concat css = resample_sessions (sorted_items d) sessions None None
      \<and> list_all2 (\<lambda>records new. 4095 < length records \<longrightarrow> 2 \<le> length new)
           (resample_sessions (sorted_items d) sessions None None) css"
    by auto
next
  assume a: "w_chunk st = [] \<and> sorted (map fst sd) \<and> walk_session sd session st = Inr st'"
  then have w: "walk_session sd session st = Inr st'" and e: "w_chunk st = []"
    and srt: "sorted (map fst sd)" by simp_all
  from walk_session_parts [OF w e srt] show "w_chunk st' = []" by simp
  from walk_session_parts [OF w e srt]
  obtain new where n: "w_chunks st' = w_chunks st @ new"
      "concat new = resample session sd None (w_spo2 st) (w_bpm st)"
      "session_part session (fst ` set sd) new"
    by blast
  from session_part_cap [OF n(3)] n(1,2)
  show "\<exists>new. w_chunks st' = w_chunks st @ new
      \<and> concat new = resample session sd None (w_spo2 st) (w_bpm st)
      \<and> (\<forall>c \<in> set new. length c \<le> 4095)
      \<and> (4095 < length (resample session sd None (w_spo2 st) (w_bpm st)) \<longrightarrow> 2 \<le> length new)"
    by auto
next
  assume l: "4095 < length rs"
  then obtain r rest where rs: "rs = r # rest" by (cases rs) auto
  show "fst (write_to_viatom_file cal rs) = None"
    using l rs by (simp add: write_to_viatom_file_def)
  show "written (snd (write_to_viatom_file cal rs)) = []"
    using l rs by (simp add: write_to_viatom_file_def)
  show "raised (snd (write_to_viatom_file cal rs))
      = Some (ChunkTooLong (fst (hd rs)) (fst (last rs)) (length rs))"
    using l rs by (simp add: write_to_viatom_file_def)
qed

theorem C1_chunk_cap_witness:
  "divide_data_to_viatom_chunks [(0, 0)] [(0, (Some 95, Some 60)), (6, (None, Some 61))]
     = Inr [[(0, 95, 60), (4, 95, 60)]]
   \<and> (\<exists>st'. walk_session [(0, (Some 95, Some 60)), (16384, (None, Some 61))] (0, 0) init_state
            = Inr st'
          \<and> length (resample (0, 0) [(0, (Some 95, Some 60)), (16384, (None, Some 61))]
                None None None) = 4096
          \<and> 2 \<le> length (w_chunks st'))
   \<and> raised (snd (write_to_viatom_file
         (\<lambda>t. \<lparr>year = 2024, month = 1, day = 1, hour = 0, minute = 0, second = 0\<rparr>)
         (replicate 4096 (0, 95, 60))))
       = Some (ChunkTooLong 0 0 4096)"
proof -
  let ?sd = "[(0 :: timestamp, (Some (95 :: int), Some (60 :: int))), (16384, (None, Some 61))]"
  let ?cal = "\<lambda>t::timestamp. \<lparr>year = 2024, month = 1, day = 1, hour = 0, minute = 0, second = 0\<rparr>"
  obtain t' cs' c' where we: "while_emit 0 16384 (Some 95) (Some 60) [] [] = Inr (t', cs', c')"
    using while_emit_total by blast
  let ?st1 = "\<lparr>w_chunks = cs', w_chunk = c', w_spo2 = Some 95, w_bpm = Some 60,
               w_last_timestamp = Some t'\<rparr>"
  define st' where
    "st' = (if c' \<noteq> [] then ?st1\<lparr>w_chunks := cs' @ [c'], w_chunk := []\<rparr> else ?st1)"
  have w: "walk (0, 0) ?sd (init_state\<lparr>w_last_timestamp := None\<rparr>) = Inr ?st1"
    using we by (simp add: Let_def start_timestamp_def carry_def init_state_def)
  have ws: "walk_session ?sd (0, 0) init_state = Inr st'"
    using w by (simp add: walk_session_def st'_def)
  have "resample (0, 0) ?sd None None None = emitted (Some 95) (Some 60) (grid 0 16384)"
    by (simp add: Let_def carry_def)
  then have cnt: "length (resample (0, 0) ?sd None None None) = 4096"
    by (simp add: emitted_def grid_length)
  have h: "w_chunk init_state = [] \<and> sorted (map fst ?sd)
      \<and> walk_session ?sd (0, 0) init_state = Inr st'"
    using ws by (simp add: init_state_def)
  have i: "w_spo2 init_state = None" "w_bpm init_state = None" "w_chunks init_state = []"
    by (simp_all add: init_state_def)
  from C1_chunk_cap [of "[(0, 0)]" "[(0, (Some 95, Some 60)), (6, (None, Some 61))]"
      "[[(0, 95, 60), (4, 95, 60)]]" init_state ?sd "(0, 0)" st' "replicate 4096 (0, 95, 60)" ?cal] h
  obtain new where new: "w_chunks st' = w_chunks init_state @ new"
      "4095 < length (resample (0, 0) ?sd None (w_spo2 init_state) (w_bpm init_state)) \<longrightarrow>
         2 \<le> length new"
      and r: "raised (snd (write_to_viatom_file ?cal (replicate 4096 (0, 95, 60))))
        = Some (ChunkTooLong (fst (hd (replicate 4096 (0::int, 95::int, 60::int))))
            (fst (last (replicate 4096 (0::int, 95::int, 60::int))))
            (length (replicate 4096 (0::int, 95::int, 60::int))))"
    by auto
  have "2 \<le> length (w_chunks st')"
    using new cnt by (simp add: i)
  moreover have "divide_data_to_viatom_chunks [(0, 0)]
      [(0, (Some 95, Some 60)), (6, (None, Some 61))] = Inr [[(0, 95, 60), (4, 95, 60)]]"
    by (simp add: divide_data_to_viatom_chunks_def sorted_items_def init_state_def
        walk_session_def Let_def start_timestamp_def carry_def while_emit.simps)
  ultimately show ?thesis
    using ws cnt r by simp
qed

text \<open>
  C4, as the claim states it, fails after the end of a session: the window is tested on the
  timestamp at which the walk of an index entry starts, and the records then run up to the
  next index timestamp. Here the session is \<open>[0, 0]\<close>, the next index timestamp is 8, and
  the record at 4 is emitted.
\<close>

theorem C4_past_session_end_counterexample:
  "divide_data_to_viatom_chunks [(0, 0)] [(8, (None, Some 61)), (0, (Some 95, Some 60))]
     = Inr [[(0, 95, 60), (4, 95, 60)]]
   \<and> snd (0 :: int, 0 :: int) < fst (4 :: int, 95 :: int, 60 :: int)"
  by (simp add: divide_data_to_viatom_chunks_def sorted_items_def init_state_def walk_session_def
      Let_def start_timestamp_def carry_def while_emit.simps)

text \<open>
  C4, amended. The chunks that the walk of a session appends hold exactly the records that
  the resampling of that session yields, and each of these records has a timestamp that is
  not before the start of that session and is strictly before every timestamp of the index
  that lies after the end of that session: no record before the session start is emitted,
  and past the session end records are emitted only up to the next timestamp of the index.
  The chunks that \<open>divide_data_to_viatom_chunks\<close> returns are these chunks, session after
  session.
\<close>

theorem C4_record_window:
  "(w_chunk st = [] \<and> sorted (map fst sd) \<and> walk_session sd session st = Inr st' \<longrightarrow>
      (\<exists>new. w_chunks st' = w_chunks st @ new
         \<and> concat new = resample session sd None (w_spo2 st) (w_bpm st)
         \<and> (\<forall>r \<in> set (concat new).
               fst session \<le> fst r \<and> (\<forall>k \<in> fst ` set sd. snd session < k \<longrightarrow> fst r < k))))
   \<and> (divide_data_to_viatom_chunks sessions d = Inr cs \<longrightarrow>
      (\<exists>css. cs = concat css
         \<and> map concat css = resample_sessions (sorted_items d) sessions None None
         \<and> list_all2
              (\<lambda>s new. \<forall>c \<in> set new. \<forall>r \<in> set c.
                 fst s \<le> fst r \<and> (\<forall>k \<in> fst ` set d. snd s < k \<longrightarrow> fst r < k))
              sessions css))"
proof (intro conjI impI)
  assume a: "w_chunk st = [] \<and> sorted (map fst sd) \<and> walk_session sd session st = Inr st'"
  then have w: "walk_session sd session st = Inr st'" and e: "w_chunk st = []"
    and srt: "sorted (map fst sd)" by simp_all
  from walk_session_parts [OF w e srt]
  obtain new where n: "w_chunks st' = w_chunks st @ new"
      "concat new = resample session sd None (w_spo2 st) (w_bpm st)"
      "session_part session (fst ` set sd) new"
    by blast
  have "\<forall>r \<in> set (concat new).
      fst session \<le> fst r \<and> (\<forall>k \<in> fst ` set sd. snd session < k \<longrightarrow> fst r < k)"
    using session_part_window [OF n(3)] by auto
  with n(1,2)
  show "\<exists>new. w_chunks st' = w_chunks st @ new
      \<and> concat new = resample session sd None (w_spo2 st) (w_bpm st)
      \<and> (\<forall>r \<in> set (concat new).
            fst session \<le> fst r \<and> (\<forall>k \<in> fst ` set sd. snd session < k \<longrightarrow> fst r < k))"
    by blast
next
  assume a: "divide_data_to_viatom_chunks sessions d = Inr cs"
  from divide_parts [OF a]
  obtain css where p: "cs = concat css"
      "map concat css = resample_sessions (sorted_items d) sessions None None"
      "list_all2 (\<lambda>s new. session_part s (fst ` set d) new) sessions css"
    by blast
  have "list_all2
      (\<lambda>s new. \<forall>c \<in> set new. \<forall>r \<in> set c.
         fst s \<le> fst r \<and> (\<forall>k \<in> fst ` set d. snd s < k \<longrightarrow> fst r < k))
      sessions css"
    by (rule list_all2_mono [OF p(3)]) (rule session_part_window)
  with p(1,2)
  show "\<exists>css. cs = concat css
      \<and> map concat css = resample_sessions (sorted_items d) sessions None None
      \<and> list_all2
           (\<lambda>s new. \<forall>c \<in> set new. \<forall>r \<in> set c.
              fst s \<le> fst r \<and> (\<forall>k \<in> fst ` set d. snd s < k \<longrightarrow> fst r < k))
           sessions css"
    by blast
qed

theorem C4_record_window_witness:
  "divide_data_to_viatom_chunks [(0, 4), (20, 20)]
       [(0, (Some 95, Some 60)), (4, (Some 96, None)), (10, (None, Some 61)),
        (20, (Some 97, None)), (26, (None, Some 62))]
     = Inr [[(0, 95, 60), (4, 96, 60), (8, 96, 60)], [(20, 97, 61), (24, 97, 61)]]
   \<and> walk_session [(0, (Some 95, Some 60)), (4, (Some 96, None)), (10, (None, Some 61)),
        (20, (Some 97, None)), (26, (None, Some 62))] (20, 20)
         \<lparr>w_chunks = [[(0, 95, 60), (4, 96, 60), (8, 96, 60)]], w_chunk = [],
          w_spo2 = Some 97, w_bpm = Some 61, w_last_timestamp = Some 12\<rparr>
       = Inr \<lparr>w_chunks = [[(0, 95, 60), (4, 96, 60), (8, 96, 60)], [(20, 97, 61), (24, 97, 61)]],
              w_chunk = [], w_spo2 = Some 97, w_bpm = Some 61, w_last_timestamp = Some 28\<rparr>
   \<and> resample (20, 20) [(0, (Some 95, Some 60)), (4, (Some 96, None)), (10, (None, Some 61)),
        (20, (Some 97, None)), (26, (None, Some 62))] None (Some 97) (Some 61)
       = [(20, 97, 61), (24, 97, 61)]"
proof -
  let ?sd = "[(0 :: timestamp, (Some (95 :: int), Some (60 :: int))), (4, (Some 96, None)),
      (10, (None, Some 61)), (20, (Some 97, None)), (26, (None, Some 62))]"
  let ?st = "\<lparr>w_chunks = [[(0 :: timestamp, 95 :: int, 60 :: int), (4, 96, 60), (8, 96, 60)]],
      w_chunk = [], w_spo2 = Some 97, w_bpm = Some 61, w_last_timestamp = Some 12\<rparr>"
  let ?st' = "\<lparr>w_chunks = [[(0 :: timestamp, 95 :: int, 60 :: int), (4, 96, 60), (8, 96, 60)],
        [(20, 97, 61), (24, 97, 61)]],
      w_chunk = [], w_spo2 = Some 97, w_bpm = Some 61, w_last_timestamp = Some 28\<rparr>"
  have e: "divide_data_to_viatom_chunks [(0, 4), (20, 20)] ?sd
     = Inr [[(0, 95, 60), (4, 96, 60), (8, 96, 60)], [(20, 97, 61), (24, 97, 61)]]"
    by (simp add: divide_data_to_viatom_chunks_def sorted_items_def init_state_def
        walk_session_def Let_def start_timestamp_def carry_def while_emit.simps)
  have w: "walk_session ?sd (20, 20) ?st = Inr ?st'"
    by (simp add: walk_session_def Let_def start_timestamp_def carry_def while_emit.simps)
  have r: "resample (20, 20) ?sd None (Some 97) (Some 61) = [(20, 97, 61), (24, 97, 61)]"
    by (simp add: Let_def carry_def emitted_def grid.simps)
  have h: "w_chunk ?st = [] \<and> sorted (map fst ?sd) \<and> walk_session ?sd (20, 20) ?st = Inr ?st'"
    using w by simp
  from C4_record_window [of ?st ?sd "(20, 20)" ?st' "[(0, 4), (20, 20)]" ?sd
      "[[(0, 95, 60), (4, 96, 60), (8, 96, 60)], [(20, 97, 61), (24, 97, 61)]]"] h e
  show ?thesis using e w r by simp
qed

text \<open>
  C8. In every chunk that \<open>divide_data_to_viatom_chunks\<close> returns, each record is exactly
  4 seconds after the record before it, so two consecutive records with another spacing are
  in different chunks. The chunks that the walk of one session appends are full chunks of
  4095 records, sealed at the cap, followed by at most one more chunk, sealed at the end of
  the session.
\<close>

theorem C8_spacing:
  "(divide_data_to_viatom_chunks sessions d = Inr cs \<longrightarrow>
      (\<forall>c \<in> set cs. \<forall>i. Suc i < length c \<longrightarrow> fst (c ! Suc i) = fst (c ! i) + 4))
   \<and> (w_chunk st = [] \<and> sorted (map fst sd) \<and> walk_session sd session st = Inr st' \<longrightarrow>
        (\<exists>full rest. w_chunks st' = w_chunks st @ full @ rest
           \<and> (\<forall>c \<in> set full. length c = 4095) \<and> length rest \<le> 1))"
proof (intro conjI impI)
  assume "divide_data_to_viatom_chunks sessions d = Inr cs"
  from divide_chunks [OF this]
  show "\<forall>c \<in> set cs. \<forall>i. Suc i < length c \<longrightarrow> fst (c ! Suc i) = fst (c ! i) + 4"
    by (auto simp add: good_def spaced4_nth)
next
  assume "w_chunk st = [] \<and> sorted (map fst sd) \<and> walk_session sd session st = Inr st'"
  then have w: "walk_session sd session st = Inr st'" and e: "w_chunk st = []"
    and srt: "sorted (map fst sd)" by simp_all
  from walk_session_new [OF w e srt]
  show "\<exists>full rest. w_chunks st' = w_chunks st @ full @ rest
      \<and> (\<forall>c \<in> set full. length c = 4095) \<and> length rest \<le> 1"
    by blast
qed

theorem C8_spacing_witness:
  "divide_data_to_viatom_chunks [(0, 4), (100, 100)]
       [(0, (Some 95, Some 60)), (4, (Some 96, None)), (12, (None, Some 61)),
        (100, (Some 97, None)), (104, (None, Some 62))]
     = Inr [[(0, 95, 60), (4, 96, 60), (8, 96, 60)], [(100, 97, 61)]]
   \<and> walk_session [(0, (Some 95, Some 60)), (4, (Some 96, None)), (12, (None, Some 61))] (0, 4)
         init_state
       = Inr \<lparr>w_chunks = [[(0, 95, 60), (4, 96, 60), (8, 96, 60)]], w_chunk = [],
              w_spo2 = Some 96, w_bpm = Some 60, w_last_timestamp = Some 12\<rparr>"
proof -
  let ?sd = "[(0 :: timestamp, (Some (95 :: int), Some (60 :: int))), (4, (Some 96, None)),
      (12, (None, Some 61))]"
  let ?st' = "\<lparr>w_chunks = [[(0, 95, 60), (4, 96, 60), (8, 96, 60)]], w_chunk = [],
      w_spo2 = Some 96, w_bpm = Some 60, w_last_timestamp = Some 12\<rparr>"
  have e: "divide_data_to_viatom_chunks [(0, 4), (100, 100)]
       [(0, (Some 95, Some 60)), (4, (Some 96, None)), (12, (None, Some 61)),
        (100, (Some 97, None)), (104, (None, Some 62))]
     = Inr [[(0, 95, 60), (4, 96, 60), (8, 96, 60)], [(100, 97, 61)]]"
    by (simp add: divide_data_to_viatom_chunks_def sorted_items_def init_state_def
        walk_session_def Let_def start_timestamp_def carry_def while_emit.simps)
  have w: "walk_session ?sd (0, 4) init_state = Inr ?st'"
    by (simp add: init_state_def walk_session_def Let_def start_timestamp_def carry_def
        while_emit.simps)
  have h: "w_chunk init_state = [] \<and> sorted (map fst ?sd)
      \<and> walk_session ?sd (0, 4) init_state = Inr ?st'"
    using w by (simp add: init_state_def)
  from C8_spacing [of "[(0, 4), (100, 100)]"
      "[(0, (Some 95, Some 60)), (4, (Some 96, None)), (12, (None, Some 61)),
        (100, (Some 97, None)), (104, (None, Some 62))]"
      "[[(0, 95, 60), (4, 96, 60), (8, 96, 60)], [(100, 97, 61)]]" init_state ?sd "(0, 4)" ?st']
  show ?thesis using e w h by simp
qed

text \<open>
  C10. Every record of every chunk that \<open>divide_data_to_viatom_chunks\<close> returns has a
  timestamp strictly less than the greatest timestamp of the index. With exactly one
  timestamp in the index the chunker returns no chunk, and the loop over the chunks writes
  no file.
\<close>

theorem C10_before_last_index:
  "(divide_data_to_viatom_chunks sessions d = Inr cs \<longrightarrow>
      (\<forall>c \<in> set cs. \<forall>r \<in> set c. fst r < Max (fst ` set d)))
   \<and> (length d = 1 \<longrightarrow>
        divide_data_to_viatom_chunks sessions d = Inr [] \<and> write_chunks cal [] [] = ([], None))"
proof (intro conjI impI)
  assume "divide_data_to_viatom_chunks sessions d = Inr cs"
  from divide_chunks [OF this]
  have "\<forall>c \<in> set cs. \<forall>r \<in> set c. \<exists>k \<in> fst ` set d. fst r < k"
    by (auto simp add: good_def in_window_def)
  moreover have "\<And>k. k \<in> fst ` set d \<Longrightarrow> k \<le> Max (fst ` set d)"
    by (rule Max_ge) simp_all
  ultimately show "\<forall>c \<in> set cs. \<forall>r \<in> set c. fst r < Max (fst ` set d)"
    by (meson less_le_trans)
next
  assume "length d = 1"
  then have "length (sorted_items d) \<le> 1" by (simp add: sorted_items_def)
  from sessions_loop_short [OF this, of init_state sessions]
  show "divide_data_to_viatom_chunks sessions d = Inr []"
    by (auto simp add: divide_data_to_viatom_chunks_def init_state_def)
next
  show "write_chunks cal [] [] = ([], None)" by simp
qed

theorem C10_before_last_index_witness:
  "divide_data_to_viatom_chunks [(5, 5)] [(5, (Some 95, Some 60))] = Inr []
   \<and> divide_data_to_viatom_chunks [(0, 0)] [(0, (Some 95, Some 60)), (6, (None, Some 61))]
       = Inr [[(0, 95, 60), (4, 95, 60)]]"
proof -
  have e: "divide_data_to_viatom_chunks [(0, 0)] [(0, (Some 95, Some 60)), (6, (None, Some 61))]
       = Inr [[(0, 95, 60), (4, 95, 60)]]"
    by (simp add: divide_data_to_viatom_chunks_def sorted_items_def init_state_def
        walk_session_def Let_def start_timestamp_def carry_def while_emit.simps)
  from C10_before_last_index [of "[(5, 5)]" "[(5, (Some 95, Some 60))]" "[]"
      "\<lambda>t. \<lparr>year = 2024, month = 1, day = 1, hour = 0, minute = 0, second = 0\<rparr>"]
    C10_before_last_index [of "[(0, 0)]" "[(0, (Some 95, Some 60)), (6, (None, Some 61))]"
      "[[(0, 95, 60), (4, 95, 60)]]"
      "\<lambda>t. \<lparr>year = 2024, month = 1, day = 1, hour = 0, minute = 0, second = 0\<rparr>"]
  show ?thesis using e by simp
qed

end
